theory Spec2Isabelle
  imports Main "HOL-Library.Word"
begin

unbundle bit_operations_syntax

section \<open>Machine types and external collaborators of pack-objects.c\<close>

text \<open>
  The embedding fixes the LP64 data model: \<open>unsigned\<close>, \<open>unsigned int\<close> and
  \<open>uint32_t\<close> are 32-bit words, \<open>unsigned long\<close>, \<open>size_t\<close> and \<open>uint64_t\<close> are
  64-bit words, \<open>unsigned char\<close> is an 8-bit word.  An object identifier
  (\<open>git_oid\<close>, \<open>GIT_OID_RAWSZ = 20\<close> raw bytes) is a 160-bit word.
  Entries of \<open>pb->object_list\<close> are referred to by their position in the list,
  so a \<open>git_pobject *\<close> is an index and \<open>NULL\<close> is \<open>None\<close>.
\<close>

type_synonym byte = "8 word"
type_synonym u32 = "32 word"
type_synonym u64 = "64 word"
type_synonym git_oid = "160 word"

datatype error = ENOMEM | EODB | EINVALID | ESINK | ECONFIG | ETAG | EFILE | EUNDEFINED | EFUEL

text \<open>
  Modelled from the spec: the object types of the data model (git2/types.h is not part
  of the sources).  \<open>otype_code\<close> gives the three-bit codes of the pack format, in the
  order in which the source compares them (\<open>GIT_OBJ_COMMIT\<close> least, \<open>GIT_OBJ_REF_DELTA\<close>
  greatest).
\<close>

datatype git_otype =
  GIT_OBJ_COMMIT | GIT_OBJ_TREE | GIT_OBJ_BLOB | GIT_OBJ_TAG | GIT_OBJ_OFS_DELTA | GIT_OBJ_REF_DELTA

fun otype_code :: "git_otype \<Rightarrow> nat" where
  "otype_code GIT_OBJ_COMMIT = 1"
| "otype_code GIT_OBJ_TREE = 2"
| "otype_code GIT_OBJ_BLOB = 3"
| "otype_code GIT_OBJ_TAG = 4"
| "otype_code GIT_OBJ_OFS_DELTA = 6"
| "otype_code GIT_OBJ_REF_DELTA = 7"

text \<open>
  Modelled from the spec: \<open>git__isspace\<close> (util.h is not part of the sources) recognises
  the whitespace bytes: space, tab, line feed, vertical tab, form feed, carriage return.
\<close>

definition git__isspace :: "byte \<Rightarrow> bool" where
  "git__isspace c = (c = 0x20 \<or> c = 0x09 \<or> c = 0x0a \<or> c = 0x0b \<or> c = 0x0c \<or> c = 0x0d)"

section \<open>name_hash\<close>

text \<open>
  The argument of \<open>name_hash_loop\<close> is the memory the \<open>char *\<close> points to; the loop
  stops at the first zero byte.  \<open>c\<close> is an \<open>unsigned\<close> read from a \<open>char\<close>: whether
  \<open>char\<close> is signed or not, \<open>c << 24\<close> keeps only the byte itself in the top eight bits.
\<close>

fun name_hash_loop :: "byte list \<Rightarrow> u32 \<Rightarrow> u32" where
  "name_hash_loop [] hash = hash"
| "name_hash_loop (c # name) hash =
     (if c = 0 then hash
      else if git__isspace c then name_hash_loop name hash
      else name_hash_loop name (drop_bit 2 hash + push_bit 24 (ucast c)))"

definition name_hash :: "byte list option \<Rightarrow> u32" where
  "name_hash name = (case name of None \<Rightarrow> 0 | Some s \<Rightarrow> name_hash_loop s 0)"

text \<open>
  What the specification calls the non-whitespace bytes of a name, and the last sixteen
  of them: the bytes before the terminating zero that are not whitespace.
\<close>

definition name_bytes :: "byte list \<Rightarrow> byte list" where
  "name_bytes s = filter (\<lambda>c. \<not> git__isspace c) (takeWhile (\<lambda>c. c \<noteq> 0) s)"

definition last16 :: "byte list \<Rightarrow> byte list" where
  "last16 xs = drop (length xs - 16) xs"

definition bytes_of :: "string \<Rightarrow> byte list" where
  "bytes_of s = map (\<lambda>c. of_nat (of_char c)) s"

text \<open>
  The same fold on natural numbers, without the reduction modulo \<open>2 ^ 32\<close>; it is
  used to reason about \<open>name_hash_loop\<close> on names whose additions do not wrap.
\<close>

fun hash_nat :: "byte list \<Rightarrow> nat \<Rightarrow> nat" where
  "hash_nat [] h = h"
| "hash_nat (c # s) h = hash_nat s (h div 4 + unat c * 2 ^ 24)"

section \<open>gen_pack_object_header\<close>

text \<open>
  \<open>hdr\<close> is the caller's buffer and an offset into it; a store past the end of the
  buffer is the error \<open>EUNDEFINED\<close>.  The result is the buffer and \<open>hdr - hdr_base\<close>.
\<close>

lemma unat_drop_bit_div: "unat (drop_bit n (w :: 'a::len word)) = unat w div 2 ^ n"
  unfolding unat_drop_bit_eq by (rule drop_bit_eq_div)

function hdr_loop :: "byte list \<Rightarrow> nat \<Rightarrow> u64 \<Rightarrow> byte \<Rightarrow> error + (byte list \<times> nat)" where
  "hdr_loop buf hdr sz c =
     (if sz \<noteq> 0 then
        (if hdr < length buf
         then hdr_loop (buf[hdr := c OR 0x80]) (hdr + 1) (drop_bit 7 sz) (ucast (sz AND 0x7f))
         else Inl EUNDEFINED)
      else if hdr < length buf then Inr (buf[hdr := c], hdr + 1)
      else Inl EUNDEFINED)"
  by pat_completeness auto
termination
proof (relation "measure (\<lambda>(buf, hdr, sz, c). unat sz)")
  show "wf (measure (\<lambda>(buf, hdr, sz, c). unat sz))" by simp
next
  fix buf :: "byte list" and hdr :: nat and sz :: u64 and c :: byte
  assume "sz \<noteq> 0"
  then have "0 < unat sz" by (simp add: unat_gt_0)
  moreover have "unat (drop_bit 7 sz) = unat sz div 2 ^ 7" by (rule unat_drop_bit_div)
  ultimately have "unat (drop_bit 7 sz) < unat sz" by simp
  then show "((buf[hdr := c OR 0x80], hdr + 1, drop_bit 7 sz, ucast (sz AND 0x7f)), (buf, hdr, sz, c))
      \<in> measure (\<lambda>(buf, hdr, sz, c). unat sz)" by simp
qed

definition gen_pack_object_header :: "byte list \<Rightarrow> u64 \<Rightarrow> git_otype \<Rightarrow> error + (byte list \<times> nat)" where
  "gen_pack_object_header hdr sz type =
     hdr_loop hdr 0 (drop_bit 4 sz) (ucast (push_bit 4 (of_nat (otype_code type)) OR (sz AND 15)))"

section \<open>The session, its entries and the external collaborators\<close>

text \<open>
  The collaborators that the spec places out of scope (object database, compressor, delta
  algorithm, rolling hash, tag enumeration, configuration store, allocator and output
  sink) are the fields of \<open>env\<close>: deterministic functions, a failure being \<open>None\<close>,
  \<open>False\<close> or \<open>CFG_ERROR\<close>.
  \<^item> \<open>odb_read\<close>: type and payload of an object, \<open>None\<close> when \<open>git_odb_read\<close> fails;
  \<^item> \<open>git__compress\<close>: the deflated bytes;
  \<^item> \<open>git_delta\<close>: source, target: the delta built at write time;
  \<^item> \<open>git_delta_create_index\<close>: whether an index can be built over the source bytes
    (the index is represented by these bytes), \<open>git_delta_sizeof_index\<close> its size;
  \<^item> \<open>git_delta_create\<close>: source (through its index), target, \<open>max_size\<close>;
  \<^item> \<open>git_hash\<close>: the digest of the bytes fed to a hash context since its creation;
  \<^item> \<open>git_tag_foreach\<close>: the objects the repository's tags refer to;
  \<^item> \<open>git__realloc_moves\<close>: whether \<open>git__realloc\<close> of \<open>object_list\<close> to that many
    entries returns the block at another address;
  \<^item> \<open>sink\<close>: whether the callback \<open>cb\<close> accepts a chunk, given the bytes it has
    accepted before.
\<close>

datatype cfg_lookup = CFG_VALUE u64 | CFG_ENOTFOUND | CFG_ERROR

record env =
  odb_read :: "git_oid \<Rightarrow> (git_otype \<times> byte list) option"
  git__compress :: "byte list \<Rightarrow> byte list option"
  git_delta :: "byte list \<Rightarrow> byte list \<Rightarrow> byte list option"
  git_delta_create_index :: "byte list \<Rightarrow> bool"
  git_delta_sizeof_index :: "byte list \<Rightarrow> u64"
  git_delta_create :: "byte list \<Rightarrow> byte list \<Rightarrow> u64 \<Rightarrow> byte list option"
  git_hash :: "byte list \<Rightarrow> git_oid"
  git_tag_foreach :: "git_oid list option"
  git_config_get_int64 :: "string \<Rightarrow> cfg_lookup"
  git_repository_config :: bool
  git_repository_odb :: bool
  git__malloc :: "nat \<Rightarrow> bool"
  git__realloc_moves :: "nat \<Rightarrow> bool"
  sink :: "byte list \<Rightarrow> byte list \<Rightarrow> bool"
  git_filebuf_open :: bool
  git_filebuf_commit :: bool

text \<open>
  An entry of the registry.  The pointers \<open>delta\<close>, \<open>delta_child\<close> and \<open>delta_sibling\<close>
  point into \<open>object_list\<close>: they are positions in it.  The last three fields are not
  fields of the structure; they record what the program has done to the memory these
  pointers refer to.  \<open>po_delta_dangling\<close>: \<open>delta\<close> was stored before \<open>git__realloc\<close>
  moved \<open>object_list\<close>, so it points into the block that was freed.
  \<open>po_family_dangling\<close>: the same for \<open>delta_child\<close> and \<open>delta_sibling\<close>, which
  \<open>compute_write_order\<close> always assigns together.  \<open>po_delta_data_freed\<close>:
  \<open>git__free\<close> has been called on the block \<open>delta_data\<close> points to and the pointer has
  been left as it was.  Testing such a pointer against \<open>NULL\<close> yields what the field
  holds; following it, or freeing the block again, is \<open>EUNDEFINED\<close>.
\<close>

record git_pobject =
  po_id :: git_oid
  po_type :: git_otype
  po_size :: u64
  po_hash :: u32
  po_delta :: "nat option"
  po_delta_child :: "nat option"
  po_delta_sibling :: "nat option"
  po_delta_data :: "byte list option"
  po_delta_size :: u64
  po_z_delta_size :: u64
  po_written :: bool
  po_recursing :: bool
  po_no_try_delta :: bool
  po_tagged :: bool
  po_filled :: bool
  po_delta_dangling :: bool
  po_family_dangling :: bool
  po_delta_data_freed :: bool

text \<open>
  \<open>nr_objects\<close> is the length of \<open>object_list\<close>; \<open>pb_done\<close> is the field \<open>done\<close>.  \<open>ctx\<close>, the rolling-hash context, holds
  the bytes fed to it since \<open>git_hash_new_ctx\<close>; \<open>git_hash_final\<close> is \<open>git_hash env\<close> of them.
\<close>

record git_packbuilder =
  object_list :: "git_pobject list"
  object_ix :: "git_oid \<Rightarrow> nat option"
  nr_alloc :: u32
  nr_written :: u32
  nr_remaining :: u32
  ctx :: "byte list"
  pack_oid :: git_oid
  delta_cache_size :: u64
  max_delta_cache_size :: u64
  cache_max_small_delta_size :: u64
  big_file_threshold :: u64
  window_memory_limit :: u64
  nr_threads :: u32
  pb_done :: bool

record unpacked =
  u_object :: "nat option"
  u_data :: "byte list option"
  u_index :: "byte list option"
  u_depth :: u32

abbreviation nr_objects :: "git_packbuilder \<Rightarrow> nat" where
  "nr_objects pb \<equiv> length (object_list pb)"

text \<open>
  Modelled from the spec: the constants of pack-objects.h and pack.h, which are not part
  of the sources: the defaults of the configuration table, the window (10, searched with
  \<open>GIT_PACK_WINDOW + 1\<close> slots), the depth 50, the signature "PACK" and the version 2.
\<close>

definition GIT_PACK_DELTA_CACHE_SIZE :: u64 where "GIT_PACK_DELTA_CACHE_SIZE = 256 * 1024 * 1024"
definition GIT_PACK_DELTA_CACHE_LIMIT :: u64 where "GIT_PACK_DELTA_CACHE_LIMIT = 1000"
definition GIT_PACK_BIG_FILE_THRESHOLD :: u64 where "GIT_PACK_BIG_FILE_THRESHOLD = 512 * 1024 * 1024"
definition GIT_PACK_WINDOW :: u32 where "GIT_PACK_WINDOW = 10"
definition GIT_PACK_DEPTH :: u32 where "GIT_PACK_DEPTH = 50"
definition PACK_SIGNATURE :: u32 where "PACK_SIGNATURE = 0x5041434b"
definition PACK_VERSION :: u32 where "PACK_VERSION = 2"

section \<open>packbuilder_config and git_packbuilder_new\<close>

text \<open>The macro \<open>config_get\<close>: the value for \<open>dst\<close>, or the early \<open>return -1\<close>.\<close>

definition config_get :: "env \<Rightarrow> string \<Rightarrow> u64 \<Rightarrow> error + u64" where
  "config_get env key dflt =
     (case git_config_get_int64 env key of
        CFG_ENOTFOUND \<Rightarrow> Inr dflt
      | CFG_ERROR \<Rightarrow> Inl ECONFIG
      | CFG_VALUE v \<Rightarrow> Inr v)"

definition packbuilder_config :: "env \<Rightarrow> git_packbuilder \<Rightarrow> error + git_packbuilder" where
  "packbuilder_config env pb =
     (if \<not> git_repository_config env then Inl ECONFIG
      else case config_get env ''pack.deltaCacheSize'' GIT_PACK_DELTA_CACHE_SIZE of
        Inl e \<Rightarrow> Inl e
      | Inr v1 \<Rightarrow>
      (case config_get env ''pack.deltaCacheLimit'' GIT_PACK_DELTA_CACHE_LIMIT of
        Inl e \<Rightarrow> Inl e
      | Inr v2 \<Rightarrow>
      (case config_get env ''pack.deltaCacheSize'' GIT_PACK_BIG_FILE_THRESHOLD of
        Inl e \<Rightarrow> Inl e
      | Inr v3 \<Rightarrow>
      (case config_get env ''pack.windowMemory'' 0 of
        Inl e \<Rightarrow> Inl e
      | Inr v4 \<Rightarrow>
        Inr (pb\<lparr>max_delta_cache_size := v1, cache_max_small_delta_size := v2,
                big_file_threshold := v3, window_memory_limit := v4\<rparr>)))))"

text \<open>The session after \<open>memset\<close>, with the fields \<open>git_packbuilder_new\<close> sets itself.\<close>

definition zeroed_packbuilder :: git_packbuilder where
  "zeroed_packbuilder =
     \<lparr>object_list = [], object_ix = (\<lambda>_. None), nr_alloc = 0, nr_written = 0, nr_remaining = 0,
      ctx = [], pack_oid = 0, delta_cache_size = 0, max_delta_cache_size = 0,
      cache_max_small_delta_size = 0, big_file_threshold = 0, window_memory_limit = 0,
      nr_threads = 0, pb_done = False\<rparr>"

definition git_packbuilder_new :: "env \<Rightarrow> error + git_packbuilder" where
  "git_packbuilder_new env =
     (if \<not> git__malloc env 1 then Inl ENOMEM
      else let pb = zeroed_packbuilder\<lparr>nr_threads := 1, ctx := []\<rparr> in
        if \<not> git_repository_odb env then Inl EODB
        else packbuilder_config env pb)"

text \<open>
  What the configuration table of the spec says a field holds: the stored value, or the
  default when the key is not found.
\<close>

definition config_or_default :: "env \<Rightarrow> string \<Rightarrow> u64 \<Rightarrow> u64" where
  "config_or_default env key dflt =
     (case git_config_get_int64 env key of CFG_VALUE v \<Rightarrow> v | _ \<Rightarrow> dflt)"

text \<open>
  An environment for the worked examples: a repository with no tags and no stored
  configuration, in which every collaborator succeeds; the object database, the delta
  algorithm and the compressor are set by each example.
\<close>

definition example_env :: env where
  "example_env =
     \<lparr>odb_read = (\<lambda>_. None), git__compress = (\<lambda>d. Some d), git_delta = (\<lambda>_ _. None),
      git_delta_create_index = (\<lambda>_. True), git_delta_sizeof_index = (\<lambda>_. 0),
      git_delta_create = (\<lambda>_ _ _. None), git_hash = (\<lambda>_. 0), git_tag_foreach = Some [],
      git_config_get_int64 = (\<lambda>_. CFG_ENOTFOUND), git_repository_config = True,
      git_repository_odb = True, git__malloc = (\<lambda>_. True),
      git__realloc_moves = (\<lambda>_. False), sink = (\<lambda>_ _. True),
      git_filebuf_open = True, git_filebuf_commit = True\<rparr>"

section \<open>The object registry: rehash and git_packbuilder_insert\<close>

definition rehash :: "git_packbuilder \<Rightarrow> git_packbuilder" where
  "rehash pb =
     pb\<lparr>object_ix := foldl (\<lambda>ix i. ix(po_id (object_list pb ! i) \<mapsto> i)) (\<lambda>_. None)
            [0..<nr_objects pb]\<rparr>"

text \<open>The entry after \<open>memset\<close> and the assignments of \<open>git_packbuilder_insert\<close>.\<close>

definition new_pobject :: "git_oid \<Rightarrow> git_otype \<Rightarrow> u64 \<Rightarrow> u32 \<Rightarrow> git_pobject" where
  "new_pobject oid ty sz h =
     \<lparr>po_id = oid, po_type = ty, po_size = sz, po_hash = h, po_delta = None,
      po_delta_child = None, po_delta_sibling = None, po_delta_data = None, po_delta_size = 0,
      po_z_delta_size = 0, po_written = False, po_recursing = False, po_no_try_delta = False,
      po_tagged = False, po_filled = False, po_delta_dangling = False,
      po_family_dangling = False, po_delta_data_freed = False\<rparr>"

text \<open>
  What a \<open>git__realloc\<close> that moves \<open>object_list\<close> does to an entry: the bytes are
  copied, so every pointer into the old block that the entry holds now dangles.
  \<open>rehash\<close> stores the new addresses in \<open>object_ix\<close>; nothing does so for \<open>delta\<close>,
  \<open>delta_child\<close> and \<open>delta_sibling\<close>.
\<close>

definition relocate :: "git_pobject \<Rightarrow> git_pobject" where
  "relocate po =
     po\<lparr>po_delta_dangling := (po_delta po \<noteq> None),
        po_family_dangling := (po_delta_child po \<noteq> None \<or> po_delta_sibling po \<noteq> None)\<rparr>"

definition git_packbuilder_insert ::
  "env \<Rightarrow> git_packbuilder \<Rightarrow> git_oid \<Rightarrow> byte list option \<Rightarrow> error + git_packbuilder" where
  "git_packbuilder_insert env pb oid name =
     (if object_ix pb oid \<noteq> None then Inr pb
      else if nr_objects pb \<ge> unat (nr_alloc pb) \<and>
              \<not> git__malloc env (unat ((nr_alloc pb + 1024) * 3 div 2)) then Inl ENOMEM
      else let pb1 = (if nr_objects pb \<ge> unat (nr_alloc pb)
                      then rehash (pb\<lparr>nr_alloc := (nr_alloc pb + 1024) * 3 div 2,
                                     object_list :=
                                       (if git__realloc_moves env (unat ((nr_alloc pb + 1024) * 3 div 2))
                                        then map relocate (object_list pb)
                                        else object_list pb)\<rparr>)
                      else pb) in
        case odb_read env oid of
          None \<Rightarrow> Inl EODB
        | Some (ty, data) \<Rightarrow>
            Inr (pb1\<lparr>object_list := object_list pb1 @ [new_pobject oid ty (of_nat (length data)) (name_hash name)],
                     object_ix := (object_ix pb1)(oid \<mapsto> nr_objects pb1),
                     pb_done := False\<rparr>))"

section \<open>The delta engine: delta_cacheable and try_delta\<close>

definition delta_cacheable :: "git_packbuilder \<Rightarrow> u64 \<Rightarrow> u64 \<Rightarrow> u64 \<Rightarrow> bool" where
  "delta_cacheable pb src_size trg_size delta_size =
     (if max_delta_cache_size pb \<noteq> 0 \<and>
         delta_cache_size pb + delta_size > max_delta_cache_size pb then False
      else if delta_size < cache_max_small_delta_size pb then True
      else if drop_bit 20 src_size + drop_bit 21 trg_size > drop_bit 10 delta_size then True
      else False)"

text \<open>
  \<open>trg\<close> and \<open>src\<close> point into the window \<open>array\<close>; they are its offsets \<open>t\<close> and \<open>s\<close>.
  The result of \<open>try_delta\<close> is the session, the window, \<open>*mem_usage\<close> and \<open>*ret\<close>; its
  \<open>return -1\<close> is \<open>Inl\<close>.  A slot without an object, a division by zero and
  \<open>git__free\<close> of a cached delta that has been freed before are \<open>EUNDEFINED\<close>.  The
  function is cut in three at its comments: the size filters
  (\<open>try_delta\<close>), the loading of the payloads and the delta attempt
  (\<open>try_delta_search\<close>), and the acceptance rule with the cache (\<open>try_delta_accept\<close>).
\<close>

definition load_unpacked ::
  "env \<Rightarrow> git_packbuilder \<Rightarrow> unpacked list \<Rightarrow> nat \<Rightarrow> nat \<Rightarrow> u64 \<Rightarrow> error + (unpacked list \<times> u64)" where
  "load_unpacked env pb array i po mem_usage =
     (if u_data (array ! i) \<noteq> None then Inr (array, mem_usage)
      else case odb_read env (po_id (object_list pb ! po)) of
        None \<Rightarrow> Inl EODB
      | Some (ty, d) \<Rightarrow>
          if \<not> git__malloc env (length d) then Inl ENOMEM
          else if (of_nat (length d) :: u64) \<noteq> po_size (object_list pb ! po) then Inl EINVALID
          else Inr (array[i := (array ! i)\<lparr>u_data := Some d\<rparr>], mem_usage + of_nat (length d)))"

definition try_delta_accept ::
  "env \<Rightarrow> git_packbuilder \<Rightarrow> unpacked list \<Rightarrow> nat \<Rightarrow> nat \<Rightarrow> nat \<Rightarrow> nat \<Rightarrow> byte list \<Rightarrow> u64 \<Rightarrow>
   error + (git_packbuilder \<times> unpacked list \<times> u64 \<times> int)" where
  "try_delta_accept env pb array t s to so delta_buf mem_usage =
     (let trg_object = object_list pb ! to; src_object = object_list pb ! so;
          trg = array ! t; src = array ! s;
          delta_size = (of_nat (length delta_buf) :: u64) in
      if po_delta trg_object \<noteq> None \<and> delta_size = po_delta_size trg_object \<and>
         u_depth src + 1 \<ge> u_depth trg
      then Inr (pb, array, mem_usage, 0)
      else if po_delta_data trg_object \<noteq> None \<and> po_delta_data_freed trg_object
      then Inl EUNDEFINED
      else let pb1 = (if po_delta_data trg_object \<noteq> None
                      then pb\<lparr>delta_cache_size := delta_cache_size pb - po_delta_size trg_object\<rparr>
                      else pb) in
        if delta_cacheable pb1 (po_size src_object) (po_size trg_object) delta_size
        then (if \<not> git__malloc env (length delta_buf) then Inl ENOMEM
              else Inr (pb1\<lparr>delta_cache_size := delta_cache_size pb1 + delta_size,
                            object_list := (object_list pb)[to := trg_object
                               \<lparr>po_delta := Some so, po_delta_data := Some delta_buf,
                                po_delta_size := delta_size, po_delta_dangling := False,
                                po_delta_data_freed := False\<rparr>]\<rparr>,
                        array[t := trg\<lparr>u_depth := u_depth src + 1\<rparr>], mem_usage, 1))
        else Inr (pb1\<lparr>object_list := (object_list pb)[to := trg_object
                               \<lparr>po_delta := Some so, po_delta_data := None,
                                po_delta_size := delta_size, po_delta_dangling := False,
                                po_delta_data_freed := False\<rparr>]\<rparr>,
                  array[t := trg\<lparr>u_depth := u_depth src + 1\<rparr>], mem_usage, 1))"

definition try_delta_search ::
  "env \<Rightarrow> git_packbuilder \<Rightarrow> unpacked list \<Rightarrow> nat \<Rightarrow> nat \<Rightarrow> nat \<Rightarrow> nat \<Rightarrow> u64 \<Rightarrow> u64 \<Rightarrow>
   error + (git_packbuilder \<times> unpacked list \<times> u64 \<times> int)" where
  "try_delta_search env pb array t s to so max_size mem_usage =
     (case load_unpacked env pb array t to mem_usage of
        Inl e \<Rightarrow> Inl e
      | Inr (a1, m1) \<Rightarrow>
      (case load_unpacked env pb a1 s so m1 of
        Inl e \<Rightarrow> Inl e
      | Inr (a2, m2) \<Rightarrow>
      (case (u_data (a2 ! t), u_data (a2 ! s)) of
        (Some trg_data, Some src_data) \<Rightarrow>
          if u_index (a2 ! s) = None \<and> \<not> git_delta_create_index env src_data
          then Inr (pb, a2, m2, 0)
          else let a3 = (if u_index (a2 ! s) = None
                         then a2[s := (a2 ! s)\<lparr>u_index := Some src_data\<rparr>] else a2);
                   m3 = (if u_index (a2 ! s) = None
                         then m2 + git_delta_sizeof_index env src_data else m2);
                   index = (case u_index (a2 ! s) of None \<Rightarrow> src_data | Some ix \<Rightarrow> ix) in
            (case git_delta_create env index trg_data max_size of
               None \<Rightarrow> Inr (pb, a3, m3, 0)
             | Some delta_buf \<Rightarrow> try_delta_accept env pb a3 t s to so delta_buf m3)
      | _ \<Rightarrow> Inl EUNDEFINED)))"

definition try_delta ::
  "env \<Rightarrow> git_packbuilder \<Rightarrow> unpacked list \<Rightarrow> nat \<Rightarrow> nat \<Rightarrow> u32 \<Rightarrow> u64 \<Rightarrow>
   error + (git_packbuilder \<times> unpacked list \<times> u64 \<times> int)" where
  "try_delta env pb array t s max_depth mem_usage =
     (case (u_object (array ! t), u_object (array ! s)) of
        (Some to, Some so) \<Rightarrow>
          if \<not> (to < nr_objects pb \<and> so < nr_objects pb) then Inl EUNDEFINED
          else let trg_object = object_list pb ! to; src_object = object_list pb ! so;
                   trg = array ! t; src = array ! s in
            if po_type trg_object \<noteq> po_type src_object then Inr (pb, array, mem_usage, - 1)
            else if u_depth src \<ge> max_depth then Inr (pb, array, mem_usage, 0)
            else let trg_size = po_size trg_object;
                     max_size0 = (if po_delta trg_object = None then trg_size div 2 - 20
                                  else po_delta_size trg_object);
                     ref_depth = (if po_delta trg_object = None then 1 else u_depth trg) in
              if max_depth - ref_depth + 1 = 0 then Inl EUNDEFINED
              else let max_size = max_size0 * ucast (max_depth - u_depth src)
                                    div ucast (max_depth - ref_depth + 1);
                       src_size = po_size src_object;
                       sizediff = (if src_size < trg_size then trg_size - src_size else 0) in
                if max_size = 0 then Inr (pb, array, mem_usage, 0)
                else if sizediff \<ge> max_size then Inr (pb, array, mem_usage, 0)
                else if trg_size < src_size div 32 then Inr (pb, array, mem_usage, 0)
                else try_delta_search env pb array t s to so max_size mem_usage
      | _ \<Rightarrow> Inl EUNDEFINED)"

text \<open>
  The size filters as the specification words them, for a target entry, the depth of its
  window slot, the depth of the source's slot and \<open>max_depth\<close>, in 64-bit unsigned
  arithmetic (32-bit for the depths).
\<close>

definition spec_ref_depth :: "git_pobject \<Rightarrow> u32 \<Rightarrow> u32" where
  "spec_ref_depth target target_depth = (if po_delta target = None then 1 else target_depth)"

definition spec_max_size :: "git_pobject \<Rightarrow> u32 \<Rightarrow> u32 \<Rightarrow> u32 \<Rightarrow> u64" where
  "spec_max_size target target_depth source_depth max_depth =
     (if po_delta target = None then po_size target div 2 - 20 else po_delta_size target)
       * ucast (max_depth - source_depth)
       div ucast (max_depth - spec_ref_depth target target_depth + 1)"

definition spec_sizediff :: "git_pobject \<Rightarrow> git_pobject \<Rightarrow> u64" where
  "spec_sizediff target source =
     (if po_size source < po_size target then po_size target - po_size source else 0)"

text \<open>
  A registry and a window for the worked examples of the delta engine: blobs of 100, 60,
  4000 and 40 bytes and a tree of 100 bytes; the last window slot is at depth 50.
\<close>

definition filter_registry :: git_packbuilder where
  "filter_registry = zeroed_packbuilder\<lparr>object_list :=
     [new_pobject 1 GIT_OBJ_BLOB 100 0, new_pobject 2 GIT_OBJ_BLOB 60 0,
      new_pobject 3 GIT_OBJ_TREE 100 0, new_pobject 4 GIT_OBJ_BLOB 4000 0,
      new_pobject 5 GIT_OBJ_BLOB 40 0]\<rparr>"

definition filter_window :: "unpacked list" where
  "filter_window =
     [\<lparr>u_object = Some 0, u_data = None, u_index = None, u_depth = 0\<rparr>,
      \<lparr>u_object = Some 1, u_data = None, u_index = None, u_depth = 0\<rparr>,
      \<lparr>u_object = Some 2, u_data = None, u_index = None, u_depth = 0\<rparr>,
      \<lparr>u_object = Some 3, u_data = None, u_index = None, u_depth = 0\<rparr>,
      \<lparr>u_object = Some 4, u_data = None, u_index = None, u_depth = 0\<rparr>,
      \<lparr>u_object = Some 1, u_data = None, u_index = None, u_depth = 50\<rparr>]"

section \<open>The delta scheduler: find_deltas\<close>

text \<open>
  \<open>check_delta_limit\<close> recurses over the \<open>delta_child\<close>/\<open>delta_sibling\<close> pointers; the
  first argument bounds the number of calls and loop rounds (\<open>EFUEL\<close> when it is used
  up, as on a cyclic structure), and a pointer outside the registry or into a freed
  block is \<open>EUNDEFINED\<close>.
\<close>

fun check_delta_limit :: "nat \<Rightarrow> git_pobject list \<Rightarrow> nat \<Rightarrow> u32 \<Rightarrow> error + u32"
  and check_delta_children :: "nat \<Rightarrow> git_pobject list \<Rightarrow> nat option \<Rightarrow> u32 \<Rightarrow> u32 \<Rightarrow> error + u32" where
  "check_delta_limit 0 objs me n = Inl EFUEL"
| "check_delta_limit (Suc fuel) objs me n =
     (if \<not> me < length objs then Inl EUNDEFINED
      else if po_delta_child (objs ! me) \<noteq> None \<and> po_family_dangling (objs ! me)
      then Inl EUNDEFINED
      else check_delta_children fuel objs (po_delta_child (objs ! me)) n n)"
| "check_delta_children 0 objs child n m = Inl EFUEL"
| "check_delta_children (Suc fuel) objs None n m = Inr m"
| "check_delta_children (Suc fuel) objs (Some child) n m =
     (case check_delta_limit fuel objs child (n + 1) of
        Inl e \<Rightarrow> Inl e
      | Inr c \<Rightarrow>
          if \<not> child < length objs then Inl EUNDEFINED
          else if po_delta_sibling (objs ! child) \<noteq> None \<and> po_family_dangling (objs ! child)
          then Inl EUNDEFINED
          else check_delta_children fuel objs (po_delta_sibling (objs ! child)) n
                 (if m < c then c else m))"

definition free_unpacked :: "env \<Rightarrow> git_packbuilder \<Rightarrow> unpacked \<Rightarrow> unpacked \<times> u64" where
  "free_unpacked env pb n =
     (\<lparr>u_object = None, u_data = None, u_index = None, u_depth = 0\<rparr>,
      (case u_index n of None \<Rightarrow> 0 | Some ix \<Rightarrow> git_delta_sizeof_index env ix) +
      (case (u_data n, u_object n) of
         (Some d, Some po) \<Rightarrow> po_size (object_list pb ! po)
       | _ \<Rightarrow> 0))"

text \<open>The \<open>while\<close> loop that frees the oldest slots while the window is over its budget.\<close>

function evict_window ::
  "env \<Rightarrow> git_packbuilder \<Rightarrow> nat \<Rightarrow> nat \<Rightarrow> unpacked list \<Rightarrow> u64 \<Rightarrow> nat \<Rightarrow> unpacked list \<times> u64 \<times> nat" where
  "evict_window env pb window idx array mem_usage count =
     (if window_memory_limit pb \<noteq> 0 \<and> mem_usage > window_memory_limit pb \<and> count > 1
      then let tail = (idx + window - count) mod window;
               (n, freed) = free_unpacked env pb (array ! tail)
           in evict_window env pb window idx (array[tail := n]) (mem_usage - freed) (count - 1)
      else (array, mem_usage, count))"
  by pat_completeness auto
termination
  by (relation "measure (\<lambda>(env, pb, window, idx, array, mem_usage, count). count)") auto

text \<open>
  The inner loop \<open>j = window; while (--j > 0)\<close>: the argument is the value of \<open>j\<close> in
  the body, and \<open>window_slot\<close> is \<open>other_idx\<close>.  \<open>best_base\<close> is an \<open>int\<close> that starts at
  \<open>-1\<close>.
\<close>

definition window_slot :: "nat \<Rightarrow> nat \<Rightarrow> nat \<Rightarrow> nat" where
  "window_slot window idx j = (if idx + j \<ge> window then idx + j - window else idx + j)"

fun find_deltas_inner ::
  "env \<Rightarrow> nat \<Rightarrow> nat \<Rightarrow> u32 \<Rightarrow> nat \<Rightarrow> git_packbuilder \<times> unpacked list \<times> u64 \<times> int \<Rightarrow>
   error + (git_packbuilder \<times> unpacked list \<times> u64 \<times> int)" where
  "find_deltas_inner env window idx max_depth 0 st = Inr st"
| "find_deltas_inner env window idx max_depth (Suc j) (pb, array, mem_usage, best_base) =
     (if u_object (array ! window_slot window idx (Suc j)) = None
      then Inr (pb, array, mem_usage, best_base)
      else case try_delta env pb array idx (window_slot window idx (Suc j)) max_depth mem_usage of
        Inl e \<Rightarrow> Inl e
      | Inr (pb', array', mem_usage', ret) \<Rightarrow>
          if ret < 0 then Inr (pb', array', mem_usage', best_base)
          else find_deltas_inner env window idx max_depth j
                 (pb', array', mem_usage',
                  if ret > 0 then int (window_slot window idx (Suc j)) else best_base))"

text \<open>Compressing a cached delta right away (\<open>if (po->delta_data)\<close>).\<close>

definition compress_cached :: "env \<Rightarrow> git_packbuilder \<Rightarrow> nat \<Rightarrow> error + git_packbuilder" where
  "compress_cached env pb po =
     (case po_delta_data (object_list pb ! po) of
        None \<Rightarrow> Inr pb
      | Some d \<Rightarrow>
          if po_delta_data_freed (object_list pb ! po) then Inl EUNDEFINED
          else if unat (po_delta_size (object_list pb ! po)) > length d then Inl EUNDEFINED
          else case git__compress env (take (unat (po_delta_size (object_list pb ! po))) d) of
            None \<Rightarrow> Inl ENOMEM
          | Some z \<Rightarrow>
              if \<not> git__malloc env (length z) then Inl ENOMEM
              else Inr (pb\<lparr>object_list := (object_list pb)[po := (object_list pb ! po)
                              \<lparr>po_delta_data := Some z, po_z_delta_size := of_nat (length z)\<rparr>],
                            delta_cache_size := delta_cache_size pb
                              - po_delta_size (object_list pb ! po) + of_nat (length z)\<rparr>))"

text \<open>Moving the best base up in the window: \<open>dist\<close> copies, then the swapped slot.\<close>

fun rotate_window :: "nat \<Rightarrow> unpacked list \<Rightarrow> nat \<Rightarrow> nat \<Rightarrow> unpacked list \<times> nat" where
  "rotate_window window array dst 0 = (array, dst)"
| "rotate_window window array dst (Suc dist) =
     rotate_window window (array[dst := array ! ((dst + 1) mod window)]) ((dst + 1) mod window) dist"

definition move_best_base :: "nat \<Rightarrow> nat \<Rightarrow> int \<Rightarrow> unpacked list \<Rightarrow> error + unpacked list" where
  "move_best_base window idx best_base array =
     (if best_base < 0 \<or> nat best_base \<ge> window then Inl EUNDEFINED
      else let swap = array ! nat best_base;
               (array', dst) = rotate_window window array (nat best_base)
                                 ((window + idx - nat best_base) mod window)
           in Inr (array'[dst := swap]))"

text \<open>
  One round of the \<open>for (;;)\<close> loop of \<open>find_deltas\<close>, for the entry \<open>po\<close> taken from the
  list.  The state is the session, the window, \<open>idx\<close>, \<open>count\<close> and \<open>mem_usage\<close>.
  \<open>check_delta_limit\<close> gets two rounds for every entry of the registry, and two more,
  which is enough on every forest.
\<close>

definition find_deltas_next ::
  "nat \<Rightarrow> git_packbuilder \<times> unpacked list \<times> nat \<times> nat \<times> u64 \<Rightarrow>
   git_packbuilder \<times> unpacked list \<times> nat \<times> nat \<times> u64" where
  "find_deltas_next window st =
     (case st of (pb, array, idx, count, mem_usage) \<Rightarrow>
        (pb, array, (if idx + 1 \<ge> window then 0 else idx + 1),
         (if count + 1 < window then count + 1 else count), mem_usage))"

definition find_deltas_search ::
  "env \<Rightarrow> nat \<Rightarrow> u32 \<Rightarrow> nat \<Rightarrow> git_packbuilder \<times> unpacked list \<times> nat \<times> nat \<times> u64 \<Rightarrow>
   error + (git_packbuilder \<times> unpacked list \<times> nat \<times> nat \<times> u64)" where
  "find_deltas_search env window max_depth po st =
     (case st of (pb, array, idx, count, mem_usage) \<Rightarrow>
      case find_deltas_inner env window idx max_depth (window - 1) (pb, array, mem_usage, - 1) of
        Inl e \<Rightarrow> Inl e
      | Inr (pb1, array1, mem1, best_base) \<Rightarrow>
      (case compress_cached env pb1 po of
        Inl e \<Rightarrow> Inl e
      | Inr pb2 \<Rightarrow>
          if po_delta (object_list pb2 ! po) \<noteq> None \<and> max_depth \<le> u_depth (array1 ! idx)
          then Inr (pb2, array1, idx, count, mem1)
          else if po_delta (object_list pb2 ! po) \<noteq> None
          then (case move_best_base window idx best_base array1 of
                  Inl e \<Rightarrow> Inl e
                | Inr array2 \<Rightarrow> Inr (find_deltas_next window (pb2, array2, idx, count, mem1)))
          else Inr (find_deltas_next window (pb2, array1, idx, count, mem1))))"

definition find_deltas_step ::
  "env \<Rightarrow> nat \<Rightarrow> u32 \<Rightarrow> nat \<Rightarrow> git_packbuilder \<times> unpacked list \<times> nat \<times> nat \<times> u64 \<Rightarrow>
   error + (git_packbuilder \<times> unpacked list \<times> nat \<times> nat \<times> u64)" where
  "find_deltas_step env window depth po st =
     (case st of (pb, array, idx, count, mem_usage) \<Rightarrow>
      if \<not> po < nr_objects pb then Inl EUNDEFINED
      else let (n, freed) = free_unpacked env pb (array ! idx);
               array1 = array[idx := n\<lparr>u_object := Some po\<rparr>];
               (array2, mem2, count2) = evict_window env pb window idx array1 (mem_usage - freed) count
           in if po_delta_child (object_list pb ! po) \<noteq> None
              then (case check_delta_limit (2 * nr_objects pb + 2) (object_list pb) po 0 of
                      Inl e \<Rightarrow> Inl e
                    | Inr limit \<Rightarrow>
                        if depth - limit \<le> 0
                        then Inr (find_deltas_next window (pb, array2, idx, count2, mem2))
                        else find_deltas_search env window (depth - limit) po (pb, array2, idx, count2, mem2))
              else find_deltas_search env window depth po (pb, array2, idx, count2, mem2))"

fun find_deltas_loop ::
  "env \<Rightarrow> nat \<Rightarrow> u32 \<Rightarrow> nat list \<Rightarrow> git_packbuilder \<times> unpacked list \<times> nat \<times> nat \<times> u64 \<Rightarrow>
   error + (git_packbuilder \<times> unpacked list \<times> nat \<times> nat \<times> u64)" where
  "find_deltas_loop env window depth [] st = Inr st"
| "find_deltas_loop env window depth (po # list) st =
     (case find_deltas_step env window depth po st of
        Inl e \<Rightarrow> Inl e
      | Inr st' \<Rightarrow> find_deltas_loop env window depth list st')"

definition find_deltas :: "env \<Rightarrow> git_packbuilder \<Rightarrow> nat list \<Rightarrow> nat \<Rightarrow> u32 \<Rightarrow> error + git_packbuilder" where
  "find_deltas env pb list window depth =
     (if \<not> git__malloc env window then Inl ENOMEM
      else if window = 0 \<and> list \<noteq> [] then Inl EUNDEFINED
      else case find_deltas_loop env window depth list
                  (pb, replicate window \<lparr>u_object = None, u_data = None, u_index = None, u_depth = 0\<rparr>,
                   0, 0, 0) of
        Inl e \<Rightarrow> Inl e
      | Inr (pb', array, idx, count, mem_usage) \<Rightarrow> Inr pb')"

section \<open>prepare_pack\<close>

text \<open>
  \<open>type_size_sort\<close> compares two entries of the registry, given by their positions; the
  comparison of the addresses \<open>a < b\<close> is the comparison of the positions.
\<close>

definition type_size_sort :: "git_pobject list \<Rightarrow> nat \<Rightarrow> nat \<Rightarrow> int" where
  "type_size_sort objs a b =
     (if otype_code (po_type (objs ! a)) > otype_code (po_type (objs ! b)) then - 1
      else if otype_code (po_type (objs ! a)) < otype_code (po_type (objs ! b)) then 1
      else if po_hash (objs ! a) > po_hash (objs ! b) then - 1
      else if po_hash (objs ! a) < po_hash (objs ! b) then 1
      else if po_size (objs ! a) > po_size (objs ! b) then - 1
      else if po_size (objs ! a) < po_size (objs ! b) then 1
      else if a < b then - 1 else (if a > b then 1 else 0))"

text \<open>
  Modelled from the spec: \<open>git__tsort\<close> (tsort.c is not part of the sources) sorts the
  array by the comparator it is given; here by insertion, an element going before the
  first one it does not compare greater than.
\<close>

fun tsort_insert :: "('a \<Rightarrow> 'a \<Rightarrow> int) \<Rightarrow> 'a \<Rightarrow> 'a list \<Rightarrow> 'a list" where
  "tsort_insert cmp x [] = [x]"
| "tsort_insert cmp x (y # ys) = (if cmp x y \<le> 0 then x # y # ys else y # tsort_insert cmp x ys)"

definition git__tsort :: "('a \<Rightarrow> 'a \<Rightarrow> int) \<Rightarrow> 'a list \<Rightarrow> 'a list" where
  "git__tsort cmp xs = foldr (tsort_insert cmp) xs []"

definition get_object_details :: "git_packbuilder \<Rightarrow> git_packbuilder" where
  "get_object_details pb =
     pb\<lparr>object_list := map (\<lambda>po. if big_file_threshold pb < po_size po
                                   then po\<lparr>po_no_try_delta := True\<rparr> else po) (object_list pb)\<rparr>"

text \<open>The loop of \<open>prepare_pack\<close> that fills \<open>delta_list\<close>, and the sort that follows it.\<close>

definition delta_list :: "git_packbuilder \<Rightarrow> nat list" where
  "delta_list pb =
     filter (\<lambda>i. \<not> po_size (object_list pb ! i) < 50 \<and> \<not> po_no_try_delta (object_list pb ! i))
       [0..<nr_objects pb]"

definition sorted_delta_list :: "git_packbuilder \<Rightarrow> nat list" where
  "sorted_delta_list pb = git__tsort (type_size_sort (object_list pb)) (delta_list pb)"

text \<open>
  The sources are read without \<open>GIT_THREADS\<close>: \<open>ll_find_deltas\<close> is the macro that calls
  \<open>find_deltas\<close> on the whole list.
\<close>

definition ll_find_deltas :: "env \<Rightarrow> git_packbuilder \<Rightarrow> nat list \<Rightarrow> nat \<Rightarrow> u32 \<Rightarrow> error + git_packbuilder" where
  "ll_find_deltas env pb l w d = find_deltas env pb l w d"

text \<open>\<open>prepare_pack\<close>: the test that short-circuits it, and what it does otherwise.\<close>

definition prepare_pack_search :: "env \<Rightarrow> git_packbuilder \<Rightarrow> error + git_packbuilder" where
  "prepare_pack_search env pb =
     (let pb1 = get_object_details pb in
        if \<not> git__malloc env (nr_objects pb1) then Inl ENOMEM
        else if length (delta_list pb1) > 1
        then (case ll_find_deltas env pb1 (sorted_delta_list pb1)
                     (unat (GIT_PACK_WINDOW + 1)) GIT_PACK_DEPTH of
                Inl e \<Rightarrow> Inl e
              | Inr pb2 \<Rightarrow> Inr (pb2\<lparr>pb_done := True\<rparr>))
        else Inr (pb1\<lparr>pb_done := True\<rparr>))"

definition prepare_pack :: "env \<Rightarrow> git_packbuilder \<Rightarrow> error + git_packbuilder" where
  "prepare_pack env pb =
     (if nr_objects pb = 0 \<or> pb_done pb then Inr pb else prepare_pack_search env pb)"

text \<open>
  What the delta search leaves of a session: the hash context, and of every entry all but
  the four fields the delta engine assigns (\<open>delta\<close>, \<open>delta_data\<close>, \<open>delta_size\<close>,
  \<open>z_delta_size\<close>) and what is recorded of the first two; and it makes no \<open>delta\<close>
  pointer dangle.
\<close>

definition static_part :: "git_pobject \<Rightarrow> git_pobject" where
  "static_part po =
     po\<lparr>po_delta := None, po_delta_data := None, po_delta_size := 0, po_z_delta_size := 0,
        po_delta_dangling := False, po_delta_data_freed := False\<rparr>"

definition same_frame :: "git_packbuilder \<Rightarrow> git_packbuilder \<Rightarrow> bool" where
  "same_frame pb pb' =
     (ctx pb' = ctx pb \<and> big_file_threshold pb' = big_file_threshold pb \<and>
      map static_part (object_list pb') = map static_part (object_list pb) \<and>
      (\<forall>i<nr_objects pb. po_delta_dangling (object_list pb' ! i) \<longrightarrow>
                            po_delta_dangling (object_list pb ! i)))"

text \<open>
  The order the specification describes for the candidate list: \<open>a\<close> stands before \<open>b\<close>
  when its type is greater, or at equal types its name hash is greater, or at equal
  hashes its size is greater, or at equal sizes it is the entry at the lower address (the
  one inserted earlier, which the source calls the newest).
\<close>

definition sorts_before :: "git_pobject list \<Rightarrow> nat \<Rightarrow> nat \<Rightarrow> bool" where
  "sorts_before objs a b =
     (otype_code (po_type (objs ! a)) > otype_code (po_type (objs ! b)) \<or>
      (po_type (objs ! a) = po_type (objs ! b) \<and>
       (po_hash (objs ! a) > po_hash (objs ! b) \<or>
        (po_hash (objs ! a) = po_hash (objs ! b) \<and>
         (po_size (objs ! a) > po_size (objs ! b) \<or>
          (po_size (objs ! a) = po_size (objs ! b) \<and> a < b))))))"

text \<open>
  A registry for the worked example of the candidate list: a file threshold of 1000
  bytes, and entries that differ in type, name hash, size and position.
\<close>

definition sort_registry :: git_packbuilder where
  "sort_registry = zeroed_packbuilder\<lparr>big_file_threshold := 1000, object_list :=
     [new_pobject 10 GIT_OBJ_BLOB 100 5, new_pobject 11 GIT_OBJ_BLOB 40 5,
      new_pobject 12 GIT_OBJ_TREE 60 0, new_pobject 13 GIT_OBJ_BLOB 100 5,
      new_pobject 14 GIT_OBJ_BLOB 200 5, new_pobject 15 GIT_OBJ_BLOB 100 9,
      new_pobject 16 GIT_OBJ_COMMIT 70 0, new_pobject 17 GIT_OBJ_BLOB 5000 5]\<rparr>"

section \<open>The write-order planner: compute_write_order\<close>

text \<open>
  The planner works on the entries and on the array \<open>wo\<close>, of which the part filled so
  far (\<open>wo[0 .. *endp)\<close>) is a list.  The loops that follow pointers take a bound on
  their rounds: \<open>EFUEL\<close> stands for a loop that does not end (a cyclic structure), and
  following a pointer that lies outside the registry or dangles is \<open>EUNDEFINED\<close>.
\<close>

definition add_to_write_order :: "git_pobject list \<times> nat list \<Rightarrow> nat \<Rightarrow> git_pobject list \<times> nat list" where
  "add_to_write_order st po =
     (case st of (objs, wo) \<Rightarrow>
        if po_filled (objs ! po) then (objs, wo)
        else (objs[po := (objs ! po)\<lparr>po_filled := True\<rparr>], wo @ [po]))"

fun add_siblings ::
  "nat \<Rightarrow> git_pobject list \<times> nat list \<Rightarrow> nat option \<Rightarrow> error + (git_pobject list \<times> nat list)" where
  "add_siblings 0 st s = Inl EFUEL"
| "add_siblings (Suc fuel) st None = Inr st"
| "add_siblings (Suc fuel) st (Some s) =
     (if \<not> s < length (fst st) then Inl EUNDEFINED
      else if po_delta_sibling (fst st ! s) \<noteq> None \<and> po_family_dangling (fst st ! s)
      then Inl EUNDEFINED
      else add_siblings fuel (add_to_write_order st s) (po_delta_sibling (fst st ! s)))"

text \<open>\<open>po = po->delta; while (po && !po->delta_sibling) po = po->delta;\<close>\<close>

fun climb_to_sibling :: "nat \<Rightarrow> git_pobject list \<Rightarrow> nat option \<Rightarrow> error + nat option" where
  "climb_to_sibling 0 objs po = Inl EFUEL"
| "climb_to_sibling (Suc fuel) objs None = Inr None"
| "climb_to_sibling (Suc fuel) objs (Some po) =
     (if \<not> po < length objs then Inl EUNDEFINED
      else if po_delta_sibling (objs ! po) \<noteq> None then Inr (Some po)
      else if po_delta (objs ! po) \<noteq> None \<and> po_delta_dangling (objs ! po) then Inl EUNDEFINED
      else climb_to_sibling fuel objs (po_delta (objs ! po)))"

fun add_descendants_to_write_order ::
  "nat \<Rightarrow> git_pobject list \<times> nat list \<Rightarrow> nat \<Rightarrow> bool \<Rightarrow> error + (git_pobject list \<times> nat list)" where
  "add_descendants_to_write_order 0 st po add_to_order = Inl EFUEL"
| "add_descendants_to_write_order (Suc fuel) st po add_to_order =
     (if \<not> po < length (fst st) then Inl EUNDEFINED
      else if add_to_order \<and> po_delta_sibling (fst st ! po) \<noteq> None \<and>
              po_family_dangling (fst st ! po)
      then Inl EUNDEFINED
      else case (if add_to_order
                 then add_siblings (Suc (length (fst st))) (add_to_write_order st po)
                        (po_delta_sibling (fst st ! po))
                 else Inr st) of
        Inl e \<Rightarrow> Inl e
      | Inr st1 \<Rightarrow>
        (case po_delta_child (fst st ! po) of
           Some child \<Rightarrow>
             if po_family_dangling (fst st ! po) then Inl EUNDEFINED
             else add_descendants_to_write_order fuel st1 child True
         | None \<Rightarrow>
           (case po_delta_sibling (fst st ! po) of
              Some s \<Rightarrow>
                if po_family_dangling (fst st ! po) then Inl EUNDEFINED
                else add_descendants_to_write_order fuel st1 s False
            | None \<Rightarrow>
              if po_delta (fst st ! po) \<noteq> None \<and> po_delta_dangling (fst st ! po)
              then Inl EUNDEFINED
              else
              (case climb_to_sibling (Suc (length (fst st))) (fst st) (po_delta (fst st ! po)) of
                 Inl e \<Rightarrow> Inl e
               | Inr None \<Rightarrow> Inr st1
               | Inr (Some up) \<Rightarrow>
                 (case po_delta_sibling (fst st ! up) of
                    Some s \<Rightarrow>
                      if po_family_dangling (fst st ! up) then Inl EUNDEFINED
                      else add_descendants_to_write_order fuel st1 s False
                  | None \<Rightarrow> Inl EUNDEFINED)))))"

fun find_root :: "nat \<Rightarrow> git_pobject list \<Rightarrow> nat \<Rightarrow> error + nat" where
  "find_root 0 objs po = Inl EFUEL"
| "find_root (Suc fuel) objs po =
     (if \<not> po < length objs then Inl EUNDEFINED
      else case po_delta (objs ! po) of
        None \<Rightarrow> Inr po
      | Some d \<Rightarrow> if po_delta_dangling (objs ! po) then Inl EUNDEFINED else find_root fuel objs d)"

definition add_family_to_write_order ::
  "git_pobject list \<times> nat list \<Rightarrow> nat \<Rightarrow> error + (git_pobject list \<times> nat list)" where
  "add_family_to_write_order st po =
     (case find_root (Suc (length (fst st))) (fst st) po of
        Inl e \<Rightarrow> Inl e
      | Inr root \<Rightarrow> add_descendants_to_write_order (2 * length (fst st) + 2) st root True)"

text \<open>A \<open>for\<close> loop over a list whose body may fail.\<close>

fun fold_err :: "('a \<Rightarrow> 's \<Rightarrow> error + 's) \<Rightarrow> 'a list \<Rightarrow> 's \<Rightarrow> error + 's" where
  "fold_err f [] s = Inr s"
| "fold_err f (x # xs) s = (case f x s of Inl e \<Rightarrow> Inl e | Inr s' \<Rightarrow> fold_err f xs s')"

text \<open>The body of the loop that connects the \<open>delta_child\<close>/\<open>delta_sibling\<close> network.\<close>

definition link_delta :: "nat \<Rightarrow> git_pobject list \<Rightarrow> error + git_pobject list" where
  "link_delta i objs =
     (case po_delta (objs ! i) of
        None \<Rightarrow> Inr objs
      | Some d \<Rightarrow>
          if po_delta_dangling (objs ! i) \<or> \<not> d < length objs then Inl EUNDEFINED
          else let objs1 = objs[i := (objs ! i)\<lparr>po_delta_sibling := po_delta_child (objs ! d)\<rparr>]
               in Inr (objs1[d := (objs1 ! d)\<lparr>po_delta_child := Some i\<rparr>]))"

definition cb_tag_foreach :: "git_packbuilder \<Rightarrow> git_oid \<Rightarrow> git_pobject list \<Rightarrow> git_pobject list" where
  "cb_tag_foreach pb oid objs =
     (case object_ix pb oid of
        None \<Rightarrow> objs
      | Some po \<Rightarrow> objs[po := (objs ! po)\<lparr>po_tagged := True\<rparr>])"

text \<open>
  \<open>compute_write_order\<close> in three parts: the reset of the flags, the forest and the
  tags (\<open>plan_forest\<close>), and the five loops that fill \<open>wo\<close> (\<open>plan_order\<close>).
\<close>

definition reset_planner_flags :: "git_pobject list \<Rightarrow> git_pobject list" where
  "reset_planner_flags objs =
     map (\<lambda>po. po\<lparr>po_tagged := False, po_filled := False,
                    po_delta_child := None, po_delta_sibling := None,
                    po_family_dangling := False\<rparr>) objs"

definition plan_forest :: "env \<Rightarrow> git_packbuilder \<Rightarrow> error + git_pobject list" where
  "plan_forest env pb =
     (case fold_err link_delta (rev [0..<nr_objects pb]) (reset_planner_flags (object_list pb)) of
        Inl e \<Rightarrow> Inl e
      | Inr objs2 \<Rightarrow>
      (case git_tag_foreach env of
        None \<Rightarrow> Inl ETAG
      | Some tags \<Rightarrow> Inr (fold (cb_tag_foreach pb) tags objs2)))"

definition last_untagged :: "git_pobject list \<Rightarrow> nat" where
  "last_untagged objs = length (takeWhile (\<lambda>i. \<not> po_tagged (objs ! i)) [0..<length objs])"

definition plan_order :: "git_pobject list \<Rightarrow> error + (git_pobject list \<times> nat list)" where
  "plan_order objs =
     fold_err (\<lambda>i st. if \<not> po_filled (fst st ! i)
                        then add_family_to_write_order st i else Inr st)
       [last_untagged objs..<length objs]
       (fold (\<lambda>i st. if po_type (fst st ! i) \<noteq> GIT_OBJ_TREE
                       then st else add_to_write_order st i)
          [last_untagged objs..<length objs]
          (fold (\<lambda>i st. if po_type (fst st ! i) \<noteq> GIT_OBJ_COMMIT \<and>
                             po_type (fst st ! i) \<noteq> GIT_OBJ_TAG
                          then st else add_to_write_order st i)
             [last_untagged objs..<length objs]
             (fold (\<lambda>i st. if po_tagged (fst st ! i) then add_to_write_order st i else st)
                [last_untagged objs..<length objs]
                (fold (\<lambda>i st. add_to_write_order st i) [0..<last_untagged objs] (objs, [])))))"

definition compute_write_order :: "env \<Rightarrow> git_packbuilder \<Rightarrow> error + (nat list \<times> git_packbuilder)" where
  "compute_write_order env pb =
     (if nr_objects pb > 0 \<and> \<not> git__malloc env (nr_objects pb) then Inl EUNDEFINED
      else case plan_forest env pb of
        Inl e \<Rightarrow> Inl e
      | Inr objs3 \<Rightarrow>
      (case plan_order objs3 of
        Inl e \<Rightarrow> Inl e
      | Inr (objs8, wo) \<Rightarrow>
          if length wo \<noteq> nr_objects pb then Inl EINVALID
          else Inr (wo, pb\<lparr>object_list := objs8\<rparr>)))"

section \<open>The pack writer: write_object, write_one and write_pack\<close>

text \<open>The raw bytes of an identifier, and a 32-bit word in network byte order.\<close>

definition oid_raw :: "git_oid \<Rightarrow> byte list" where
  "oid_raw oid = map (\<lambda>i. ucast (drop_bit (8 * (19 - i)) oid)) [0..<20]"

definition htonl :: "u32 \<Rightarrow> byte list" where
  "htonl w = [ucast (drop_bit 24 w), ucast (drop_bit 16 w), ucast (drop_bit 8 w), ucast w]"

text \<open>
  Beside the bytes it appends to \<open>buf\<close>, \<open>write_object\<close> is given a log of the records
  written so far: which entry each record is for, the type in its header and, for a
  \<open>REF_DELTA\<close>, the base identifier that follows the header.  The log is not part of the
  program; it names the records of the stream.  At its end \<open>write_object\<close> calls
  \<open>git__free\<close> on \<open>po->delta_data\<close> and leaves the pointer in the field
  (\<open>po_delta_data_freed\<close>).  That call is \<open>EUNDEFINED\<close> when the block has been freed
  before: by an earlier \<open>write_object\<close>, or a few lines above, after \<open>git__compress\<close>,
  when the entry has a delta whose cached bytes were not compressed (\<open>z_delta_size\<close> is
  0).
\<close>

record pack_record =
  rec_id :: git_oid
  rec_type :: git_otype
  rec_base :: "git_oid option"

datatype write_one_status = WRITE_ONE_SKIP | WRITE_ONE_BREAK | WRITE_ONE_WRITTEN | WRITE_ONE_RECURSIVE

definition get_delta :: "env \<Rightarrow> git_packbuilder \<Rightarrow> nat \<Rightarrow> nat \<Rightarrow> error + byte list" where
  "get_delta env pb po d =
     (case odb_read env (po_id (object_list pb ! d)) of
        None \<Rightarrow> Inl EODB
      | Some (sty, src) \<Rightarrow>
      (case odb_read env (po_id (object_list pb ! po)) of
        None \<Rightarrow> Inl EODB
      | Some (tty, trg) \<Rightarrow>
      (case git_delta env src trg of
        None \<Rightarrow> Inl EINVALID
      | Some delta_buf \<Rightarrow>
          if (of_nat (length delta_buf) :: u64) \<noteq> po_delta_size (object_list pb ! po)
          then Inl EINVALID else Inr delta_buf)))"

text \<open>The first part of \<open>write_object\<close>: \<open>data\<close>, \<open>size\<close> and \<open>type\<close>.\<close>

definition object_payload :: "env \<Rightarrow> git_packbuilder \<Rightarrow> nat \<Rightarrow> error + (byte list \<times> u64 \<times> git_otype)" where
  "object_payload env pb po =
     (case po_delta (object_list pb ! po) of
        Some d \<Rightarrow>
          if \<not> d < nr_objects pb then Inl EUNDEFINED
          else (case po_delta_data (object_list pb ! po) of
                  Some dd \<Rightarrow> Inr (dd, po_delta_size (object_list pb ! po), GIT_OBJ_REF_DELTA)
                | None \<Rightarrow>
                  if po_delta_dangling (object_list pb ! po) then Inl EUNDEFINED
                  else
                  (case get_delta env pb po d of
                     Inl e \<Rightarrow> Inl e
                   | Inr delta_buf \<Rightarrow>
                       Inr (delta_buf, po_delta_size (object_list pb ! po), GIT_OBJ_REF_DELTA)))
      | None \<Rightarrow>
          (case odb_read env (po_id (object_list pb ! po)) of
             None \<Rightarrow> Inl EODB
           | Some (ty, d) \<Rightarrow> Inr (d, of_nat (length d), ty)))"

text \<open>
  The part "Write data": the bytes that follow the header and the base.  They are read
  from \<open>data\<close>, which is \<open>po->delta_data\<close> when the entry has a delta and a cached one.
\<close>

definition object_data :: "env \<Rightarrow> git_packbuilder \<Rightarrow> nat \<Rightarrow> byte list \<Rightarrow> u64 \<Rightarrow> error + byte list" where
  "object_data env pb po data sz =
     (if po_delta (object_list pb ! po) \<noteq> None \<and> po_delta_data (object_list pb ! po) \<noteq> None \<and>
         po_delta_data_freed (object_list pb ! po)
      then Inl EUNDEFINED
      else if po_z_delta_size (object_list pb ! po) \<noteq> 0
      then (if unat (po_z_delta_size (object_list pb ! po)) > length data then Inl EUNDEFINED
            else Inr (take (unat (po_z_delta_size (object_list pb ! po))) data))
      else if unat sz > length data then Inl EUNDEFINED
      else case git__compress env (take (unat sz) data) of
        None \<Rightarrow> Inl ENOMEM
      | Some z \<Rightarrow> Inr z)"

definition write_object ::
  "env \<Rightarrow> byte list \<times> pack_record list \<Rightarrow> git_packbuilder \<Rightarrow> nat \<Rightarrow>
   error + ((byte list \<times> pack_record list) \<times> git_packbuilder)" where
  "write_object env bl pb po =
     (case object_payload env pb po of
        Inl e \<Rightarrow> Inl e
      | Inr (data, sz, type) \<Rightarrow>
      (case gen_pack_object_header (replicate 10 0) sz type of
        Inl e \<Rightarrow> Inl e
      | Inr (hdr, hdr_len) \<Rightarrow>
          if \<not> git__malloc env hdr_len then Inl ENOMEM
          else if type = GIT_OBJ_REF_DELTA \<and>
                  (po_delta (object_list pb ! po) = None \<or> po_delta_dangling (object_list pb ! po))
          then Inl EUNDEFINED
          else if type = GIT_OBJ_REF_DELTA \<and> \<not> git__malloc env 20 then Inl ENOMEM
          else let base = (if type = GIT_OBJ_REF_DELTA
                           then (case po_delta (object_list pb ! po) of
                                   Some d \<Rightarrow> Some (po_id (object_list pb ! d)) | None \<Rightarrow> None)
                           else None);
                   head = take hdr_len hdr @ (case base of Some b \<Rightarrow> oid_raw b | None \<Rightarrow> [])
               in (case object_data env pb po data sz of
                     Inl e \<Rightarrow> Inl e
                   | Inr payload \<Rightarrow>
                       if \<not> git__malloc env (length payload) then Inl ENOMEM
                       else if po_delta_data (object_list pb ! po) \<noteq> None \<and>
                               (po_delta_data_freed (object_list pb ! po) \<or>
                                po_delta (object_list pb ! po) \<noteq> None \<and>
                                po_z_delta_size (object_list pb ! po) = 0)
                       then Inl EUNDEFINED
                       else Inr ((fst bl @ head @ payload,
                                  snd bl @ [\<lparr>rec_id = po_id (object_list pb ! po), rec_type = type,
                                            rec_base = base\<rparr>]),
                                 pb\<lparr>ctx := ctx pb @ head @ payload,
                                    nr_written := nr_written pb + 1,
                                    object_list := (object_list pb)[po := (object_list pb ! po)
                                      \<lparr>po_delta_data_freed :=
                                         (po_delta_data (object_list pb ! po) \<noteq> None)\<rparr>]\<rparr>))))"

text \<open>
  The invariant of the planner: the filled part of \<open>wo\<close> holds, without repetition, the
  entries that are marked \<open>filled\<close>.
\<close>

definition wo_inv :: "git_pobject list \<times> nat list \<Rightarrow> bool" where
  "wo_inv st = (distinct (snd st) \<and> set (snd st) = {i. i < length (fst st) \<and> po_filled (fst st ! i)})"

definition unfilled :: "nat \<Rightarrow> git_pobject list \<Rightarrow> bool" where
  "unfilled n objs = (map po_filled objs = replicate n False)"

definition planned :: "nat \<Rightarrow> git_pobject list \<times> nat list \<Rightarrow> bool" where
  "planned n st = (wo_inv st \<and> length (fst st) = n)"

text \<open>
  \<open>*status\<close> is passed in and out: \<open>write_one\<close> assigns it only when it returns early.
  The recursion ends because every nested call is on a session with one more entry
  marked \<open>recursing\<close>.
\<close>

lemma length_filter_update_less:
  assumes "i < length xs" and "P (xs ! i)" and "\<not> P y"
  shows "length (filter P (xs[i := y])) < length (filter P xs)"
proof -
  have xs: "xs = take i xs @ xs ! i # drop (Suc i) xs"
    using assms(1) by (simp add: id_take_nth_drop)
  have "xs[i := y] = take i xs @ y # drop (Suc i) xs"
    using assms(1) by (simp add: upd_conv_take_nth_drop)
  then have "length (filter P (xs[i := y])) = length (filter P (take i xs)) + length (filter P (drop (Suc i) xs))"
    using assms(3) by simp
  moreover have "length (filter P xs) = length (filter P (take i xs)) + Suc (length (filter P (drop (Suc i) xs)))"
    using assms(2) by (subst xs) simp
  ultimately show ?thesis by simp
qed

function write_one ::
  "env \<Rightarrow> byte list \<times> pack_record list \<Rightarrow> git_packbuilder \<Rightarrow> nat \<Rightarrow> write_one_status \<Rightarrow>
   error + ((byte list \<times> pack_record list) \<times> git_packbuilder \<times> write_one_status)" where
  "write_one env bl pb po status =
     (if \<not> po < nr_objects pb then Inl EUNDEFINED
      else if po_recursing (object_list pb ! po) then Inr (bl, pb, WRITE_ONE_RECURSIVE)
      else if po_written (object_list pb ! po) then Inr (bl, pb, WRITE_ONE_SKIP)
      else case po_delta (object_list pb ! po) of
        Some d \<Rightarrow>
          if po_delta_dangling (object_list pb ! po) then Inl EUNDEFINED
          else
          (case write_one env bl
                  (pb\<lparr>object_list := (object_list pb)[po := (object_list pb ! po)\<lparr>po_recursing := True\<rparr>]\<rparr>)
                  d status of
             Inl e \<Rightarrow> Inl e
           | Inr (bl1, pb1, status1) \<Rightarrow>
               let objs2 = (if status1 = WRITE_ONE_RECURSIVE
                            then (object_list pb1)[po := (object_list pb1 ! po)
                                   \<lparr>po_delta := None, po_delta_dangling := False\<rparr>]
                            else object_list pb1);
                   pb3 = pb1\<lparr>object_list := objs2[po := (objs2 ! po)\<lparr>po_written := True, po_recursing := False\<rparr>]\<rparr>
               in (case write_object env bl1 pb3 po of
                     Inl e \<Rightarrow> Inl e
                   | Inr (bl2, pb4) \<Rightarrow> Inr (bl2, pb4, status1)))
      | None \<Rightarrow>
          (case write_object env bl
                  (pb\<lparr>object_list := (object_list pb)[po := (object_list pb ! po)
                         \<lparr>po_written := True, po_recursing := False\<rparr>]\<rparr>) po of
             Inl e \<Rightarrow> Inl e
           | Inr (bl2, pb4) \<Rightarrow> Inr (bl2, pb4, status)))"
  by pat_completeness auto
termination
proof (relation "measure (\<lambda>(env, bl, pb, po, status).
          length (filter (\<lambda>e. \<not> po_recursing e) (object_list pb)))")
  show "wf (measure (\<lambda>(env, bl, pb, po, status).
          length (filter (\<lambda>e. \<not> po_recursing e) (object_list pb))))" by simp
next
  fix env :: env and bl :: "byte list \<times> pack_record list" and pb :: git_packbuilder
    and po :: nat and status :: write_one_status and d :: nat
  assume "\<not> \<not> po < nr_objects pb" and "\<not> po_recursing (object_list pb ! po)"
  then have "length (filter (\<lambda>e. \<not> po_recursing e)
               ((object_list pb)[po := (object_list pb ! po)\<lparr>po_recursing := True\<rparr>]))
             < length (filter (\<lambda>e. \<not> po_recursing e) (object_list pb))"
    by (intro length_filter_update_less) simp_all
  then show "((env, bl, pb\<lparr>object_list := (object_list pb)[po := (object_list pb ! po)\<lparr>po_recursing := True\<rparr>]\<rparr>, d, status),
              (env, bl, pb, po, status))
      \<in> measure (\<lambda>(env, bl, pb, po, status). length (filter (\<lambda>e. \<not> po_recursing e) (object_list pb)))"
    by simp
qed

declare write_one.simps [simp del]

text \<open>
  \<open>write_pack\<close>.  The sink is the callback \<open>cb\<close> with its \<open>data\<close>: \<open>out\<close> is what it holds
  (the bytes accepted so far), and \<open>sink env out chunk\<close> tells whether it accepts the next
  chunk.  The local variable \<open>status\<close> is not initialised; its first value is
  \<open>status0\<close>.  The result is the content of the sink, the log of the records and the
  session.  The \<open>do ... while\<close> loop runs its body once, since the \<open>for\<close> loop inside it
  leaves \<open>i = nr_objects\<close>.
\<close>

definition write_pack_entry ::
  "env \<Rightarrow> nat \<Rightarrow> (byte list \<times> pack_record list) \<times> git_packbuilder \<times> write_one_status \<Rightarrow>
   error + ((byte list \<times> pack_record list) \<times> git_packbuilder \<times> write_one_status)" where
  "write_pack_entry env po st =
     (case st of ((out, log), pb, status) \<Rightarrow>
      case write_one env ([], log) pb po status of
        Inl e \<Rightarrow> Inl e
      | Inr ((buf, log'), pb', status') \<Rightarrow>
          if \<not> sink env out buf then Inl ESINK
          else Inr ((out @ buf, log'), pb', status'))"

definition pack_header :: "git_packbuilder \<Rightarrow> byte list" where
  "pack_header pb = htonl PACK_SIGNATURE @ htonl PACK_VERSION @ htonl (of_nat (nr_objects pb))"

definition write_pack ::
  "env \<Rightarrow> git_packbuilder \<Rightarrow> write_one_status \<Rightarrow> byte list \<Rightarrow>
   error + (byte list \<times> pack_record list \<times> git_packbuilder)" where
  "write_pack env pb status0 out =
     (case compute_write_order env pb of
        Inl e \<Rightarrow> Inl e
      | Inr (write_order, pb1) \<Rightarrow>
          if \<not> sink env out (pack_header pb1) then Inl ESINK
          else case fold_err (write_pack_entry env) write_order
                      ((out @ pack_header pb1, []),
                       pb1\<lparr>ctx := ctx pb1 @ pack_header pb1,
                           nr_remaining := of_nat (nr_objects pb1), nr_written := 0\<rparr>,
                       status0) of
            Inl e \<Rightarrow> Inl e
          | Inr ((out2, log), pb2, status) \<Rightarrow>
              let pb3 = pb2\<lparr>nr_remaining := nr_remaining pb2 - nr_written pb2,
                            pack_oid := git_hash env (ctx pb2)\<rparr>
              in if \<not> sink env out2 (oid_raw (pack_oid pb3)) then Inl ESINK
                 else Inr (out2 @ oid_raw (pack_oid pb3), log, pb3))"

section \<open>The build operations\<close>

text \<open>
  \<open>git_packbuilder_send\<close>, \<open>git_packbuilder_write_buf\<close> and \<open>git_packbuilder_write\<close>:
  \<open>PREPARE_PACK\<close>, then \<open>write_pack\<close> into the transport (which has been sent \<open>out\<close>
  before), into the buffer (whose content is \<open>out\<close>) or into a new file.
\<close>

definition git_packbuilder_send ::
  "env \<Rightarrow> git_packbuilder \<Rightarrow> write_one_status \<Rightarrow> byte list \<Rightarrow>
   error + (byte list \<times> pack_record list \<times> git_packbuilder)" where
  "git_packbuilder_send env pb status0 out =
     (case prepare_pack env pb of Inl e \<Rightarrow> Inl e | Inr pb1 \<Rightarrow> write_pack env pb1 status0 out)"

definition git_packbuilder_write_buf ::
  "env \<Rightarrow> byte list \<Rightarrow> git_packbuilder \<Rightarrow> write_one_status \<Rightarrow>
   error + (byte list \<times> pack_record list \<times> git_packbuilder)" where
  "git_packbuilder_write_buf env out pb status0 =
     (case prepare_pack env pb of Inl e \<Rightarrow> Inl e | Inr pb1 \<Rightarrow> write_pack env pb1 status0 out)"

definition write_pack_file ::
  "env \<Rightarrow> git_packbuilder \<Rightarrow> write_one_status \<Rightarrow>
   error + (byte list \<times> pack_record list \<times> git_packbuilder)" where
  "write_pack_file env pb status0 =
     (if \<not> git_filebuf_open env then Inl EFILE
      else case write_pack env pb status0 [] of
        Inl e \<Rightarrow> Inl e
      | Inr r \<Rightarrow> if \<not> git_filebuf_commit env then Inl EFILE else Inr r)"

definition git_packbuilder_write ::
  "env \<Rightarrow> git_packbuilder \<Rightarrow> write_one_status \<Rightarrow>
   error + (byte list \<times> pack_record list \<times> git_packbuilder)" where
  "git_packbuilder_write env pb status0 =
     (case prepare_pack env pb of Inl e \<Rightarrow> Inl e | Inr pb1 \<Rightarrow> write_pack_file env pb1 status0)"

section \<open>Worked example: two blobs, the first a delta of the second\<close>

text \<open>
  An object database with a blob of 60 bytes under the identifier 1 and a blob of 100
  bytes under the identifier 2, a delta algorithm that encodes any target against any
  source in four bytes, and a checksum in the place of the rolling hash.
\<close>

definition delta_env :: env where
  "delta_env = example_env\<lparr>
     odb_read := (\<lambda>oid. if oid = 1 then Some (GIT_OBJ_BLOB, replicate 60 0x61)
                         else if oid = 2 then Some (GIT_OBJ_BLOB, replicate 100 0x61)
                         else None),
     git_delta_create := (\<lambda>src trg max_size. Some [1, 2, 3, 4]),
     git_delta := (\<lambda>src trg. Some [1, 2, 3, 4]),
     git_hash := (\<lambda>bytes. foldl (\<lambda>h b. h * 31 + ucast b) 0 bytes)\<rparr>"

text \<open>
  The session after \<open>new\<close>, \<open>insert 1\<close> and \<open>insert 2\<close>, and the same session after
  \<open>prepare_pack\<close>.
\<close>

definition delta_inserted :: "error + git_packbuilder" where
  "delta_inserted =
     (case git_packbuilder_new delta_env of Inl e \<Rightarrow> Inl e | Inr pb0 \<Rightarrow>
      case git_packbuilder_insert delta_env pb0 1 None of Inl e \<Rightarrow> Inl e | Inr pb1 \<Rightarrow>
      git_packbuilder_insert delta_env pb1 2 None)"

definition delta_session :: "error + git_packbuilder" where
  "delta_session =
     (case delta_inserted of Inl e \<Rightarrow> Inl e | Inr pb \<Rightarrow> prepare_pack delta_env pb)"

text \<open>The write order the planner computes for that session.\<close>

definition delta_session_order :: "error + (nat list \<times> git_packbuilder)" where
  "delta_session_order =
     (case delta_session of Inl e \<Rightarrow> Inl e | Inr pb \<Rightarrow> compute_write_order delta_env pb)"

text \<open>
  The bytes a call has appended to \<open>buf\<close> are the bytes it has fed to the hash context.
\<close>

definition fed :: "byte list \<times> pack_record list \<Rightarrow> git_packbuilder \<Rightarrow>
    byte list \<times> pack_record list \<Rightarrow> git_packbuilder \<Rightarrow> bool" where
  "fed bl pb bl' pb' =
     (\<exists>bytes. fst bl' = fst bl @ bytes \<and> ctx pb' = ctx pb @ bytes \<and> nr_objects pb' = nr_objects pb)"

text \<open>
  The state of the loop of \<open>write_pack\<close>: the sink holds \<open>out0\<close> and then what the hash
  context has been fed after \<open>ctx0\<close>.
\<close>

definition streamed ::
  "byte list \<Rightarrow> byte list \<Rightarrow> nat \<Rightarrow> (byte list \<times> pack_record list) \<times> git_packbuilder \<times> write_one_status \<Rightarrow> bool" where
  "streamed out0 ctx0 n st =
     (\<exists>body. fst (fst st) = out0 @ body \<and> ctx (fst (snd st)) = ctx0 @ body \<and>
             nr_objects (fst (snd st)) = n)"

text \<open>\<open>git_packbuilder_write_buf\<close> into an empty buffer, on the session after the two inserts.\<close>

definition delta_build :: "error + (byte list \<times> pack_record list \<times> git_packbuilder)" where
  "delta_build =
     (case delta_inserted of
        Inl e \<Rightarrow> Inl e
      | Inr pb \<Rightarrow> git_packbuilder_write_buf delta_env [] pb WRITE_ONE_WRITTEN)"

section \<open>Worked example: a session that builds twice\<close>

text \<open>
  \<open>new\<close>, \<open>insert 2\<close> (the blob of 100 bytes), \<open>write_buf\<close>; then \<open>insert 1\<close> (the blob of
  60 bytes) on the same session, and \<open>write_buf\<close> into a second, empty buffer.
\<close>

definition reuse_first_build :: "error + (byte list \<times> pack_record list \<times> git_packbuilder)" where
  "reuse_first_build =
     (case git_packbuilder_new delta_env of Inl e \<Rightarrow> Inl e | Inr pb0 \<Rightarrow>
      case git_packbuilder_insert delta_env pb0 2 None of Inl e \<Rightarrow> Inl e | Inr pb1 \<Rightarrow>
      git_packbuilder_write_buf delta_env [] pb1 WRITE_ONE_WRITTEN)"

definition reuse_second_build :: "error + (byte list \<times> pack_record list \<times> git_packbuilder)" where
  "reuse_second_build =
     (case reuse_first_build of Inl e \<Rightarrow> Inl e | Inr (out1, log1, pb2) \<Rightarrow>
      case git_packbuilder_insert delta_env pb2 1 None of Inl e \<Rightarrow> Inl e | Inr pb3 \<Rightarrow>
      git_packbuilder_write_buf delta_env [] pb3 WRITE_ONE_WRITTEN)"

text \<open>
  \<open>new\<close>, \<open>insert 2\<close>, \<open>write_buf\<close>, and \<open>write_buf\<close> again on the same session, into a
  second, empty buffer.
\<close>

definition rebuild :: "error + (byte list \<times> pack_record list \<times> git_packbuilder)" where
  "rebuild =
     (case reuse_first_build of Inl e \<Rightarrow> Inl e | Inr (out1, log1, pb2) \<Rightarrow>
      git_packbuilder_write_buf delta_env [] pb2 WRITE_ONE_WRITTEN)"

section \<open>Worked example: an insert that moves the registry\<close>

text \<open>
  The session of the first example after its delta search, in an array with room for
  two entries (a session from \<open>git_packbuilder_new\<close> is full at 1536 entries, the size
  the first \<open>git__realloc\<close> gives it), and an allocator that returns the enlarged
  array at another address.  The object database also holds a blob of 70 bytes under
  the identifier 3.
\<close>

definition moving_env :: env where
  "moving_env = delta_env\<lparr>
     odb_read := (\<lambda>oid. if oid = 3 then Some (GIT_OBJ_BLOB, replicate 70 0x61)
                         else odb_read delta_env oid),
     git__realloc_moves := (\<lambda>_. True)\<rparr>"

definition full_session :: "error + git_packbuilder" where
  "full_session =
     (case delta_session of Inl e \<Rightarrow> Inl e | Inr pb \<Rightarrow> Inr (pb\<lparr>nr_alloc := 2\<rparr>))"

definition moved_session :: "error + git_packbuilder" where
  "moved_session =
     (case full_session of Inl e \<Rightarrow> Inl e | Inr pb \<Rightarrow> git_packbuilder_insert moving_env pb 3 None)"

section \<open>Delta chains\<close>

text \<open>
  Following the \<open>delta\<close> pointers from the entry \<open>i\<close>, as \<open>add_family_to_write_order\<close>
  does to find the root: the entries visited, up to the one without a \<open>delta\<close>.  The
  walk is \<open>EUNDEFINED\<close> when it follows a pointer that dangles or lies outside the
  registry, and \<open>EFUEL\<close> when it has not ended after \<open>fuel\<close> entries.
\<close>

fun delta_chain :: "nat \<Rightarrow> git_pobject list \<Rightarrow> nat \<Rightarrow> error + nat list" where
  "delta_chain 0 objs i = Inl EFUEL"
| "delta_chain (Suc fuel) objs i =
     (if \<not> i < length objs then Inl EUNDEFINED
      else case po_delta (objs ! i) of
        None \<Rightarrow> Inr [i]
      | Some b \<Rightarrow>
          if po_delta_dangling (objs ! i) then Inl EUNDEFINED
          else (case delta_chain fuel objs b of Inl e \<Rightarrow> Inl e | Inr p \<Rightarrow> Inr (i # p)))"

text \<open>
  The delta links of a registry, by position, and of a window the object and the depth of
  every slot.
\<close>

definition delta_links :: "git_packbuilder \<Rightarrow> nat option list" where
  "delta_links pb = map po_delta (object_list pb)"

definition slots :: "unpacked list \<Rightarrow> (nat option \<times> u32) list" where
  "slots array = map (\<lambda>u. (u_object u, u_depth u)) array"

text \<open>
  \<open>chain dl d i\<close>: following the links \<open>dl\<close> from the entry \<open>i\<close> reaches an entry without
  a link after exactly \<open>d\<close> steps.
\<close>

fun chain :: "nat option list \<Rightarrow> nat \<Rightarrow> nat \<Rightarrow> bool" where
  "chain dl 0 i = (i < length dl \<and> dl ! i = None)"
| "chain dl (Suc d) i =
     (i < length dl \<and> (case dl ! i of None \<Rightarrow> False | Some b \<Rightarrow> chain dl d b))"

text \<open>
  The entries of \<open>S\<close> are settled: each reaches an entry without a link in at most \<open>D\<close>
  steps, through entries of \<open>S\<close>.  A window slot is in order when it is empty or holds an
  entry of \<open>S\<close> whose chain has the length the slot records as its depth.
\<close>

definition settled :: "nat \<Rightarrow> nat set \<Rightarrow> nat option list \<Rightarrow> bool" where
  "settled D S dl =
     (\<forall>i\<in>S. (\<exists>d\<le>D. chain dl d i) \<and> (\<forall>b. dl ! i = Some b \<longrightarrow> b \<in> S))"

definition slot_ok :: "nat set \<Rightarrow> nat option list \<Rightarrow> nat option \<times> u32 \<Rightarrow> bool" where
  "slot_ok S dl s =
     (case fst s of None \<Rightarrow> True | Some po \<Rightarrow> po \<in> S \<and> chain dl (unat (snd s)) po)"

text \<open>
  The state of the delta search between two rounds of \<open>find_deltas\<close>, \<open>S\<close> being the
  entries the rounds so far have taken from the list and \<open>dl0\<close> the links at the start,
  and its state inside the inner loop of the round of the entry \<open>po\<close>, whose slot is
  \<open>idx\<close>.
\<close>

definition window_inv ::
  "nat \<Rightarrow> nat set \<Rightarrow> nat option list \<Rightarrow> nat option list \<Rightarrow> (nat option \<times> u32) list \<Rightarrow> bool" where
  "window_inv D S dl0 dl sl =
     (length dl = length dl0 \<and> settled D S dl \<and> (\<forall>i. i \<notin> S \<longrightarrow> dl ! i = dl0 ! i) \<and>
      (\<forall>s\<in>set sl. slot_ok S dl s))"

definition inner_inv ::
  "nat \<Rightarrow> nat set \<Rightarrow> nat \<Rightarrow> nat \<Rightarrow> nat option list \<Rightarrow> nat option list \<Rightarrow>
   (nat option \<times> u32) list \<Rightarrow> int \<Rightarrow> bool" where
  "inner_inv D S po idx dl0 dl sl bb =
     (length dl = length dl0 \<and> settled D S dl \<and>
      (\<forall>i. i \<notin> insert po S \<longrightarrow> dl ! i = dl0 ! i) \<and>
      (\<forall>k<length sl. k \<noteq> idx \<longrightarrow> slot_ok S dl (sl ! k)) \<and>
      (fst (sl ! idx) = None \<or> fst (sl ! idx) = Some po) \<and>
      (bb < 0 \<longrightarrow> snd (sl ! idx) = 0) \<and>
      (0 \<le> bb \<longrightarrow> (\<exists>b d. dl ! po = Some b \<and> b \<in> S \<and> chain dl d b \<and> Suc d \<le> D \<and>
                            unat (snd (sl ! idx)) = Suc d)))"

text \<open>
  What holds of a registry before \<open>write_pack\<close> has run on it, as long as
  \<open>object_list\<close> stays where it is: no entry has a \<open>delta_child\<close> (only \<open>compute_write_order\<close> assigns that
  field), no \<open>delta\<close> pointer dangles, an entry with a delta link is one that
  \<open>prepare_pack\<close> puts in its list, and every chain ends within \<open>GIT_PACK_DEPTH\<close> steps.
\<close>

definition candidate :: "git_packbuilder \<Rightarrow> git_pobject \<Rightarrow> bool" where
  "candidate pb po =
     (\<not> po_size po < 50 \<and> \<not> po_no_try_delta po \<and> \<not> big_file_threshold pb < po_size po)"

definition no_children :: "git_packbuilder \<Rightarrow> bool" where
  "no_children pb = (\<forall>i<nr_objects pb. po_delta_child (object_list pb ! i) = None)"

definition no_dangling :: "git_packbuilder \<Rightarrow> bool" where
  "no_dangling pb = (\<forall>i<nr_objects pb. \<not> po_delta_dangling (object_list pb ! i))"

definition registry_inv :: "git_packbuilder \<Rightarrow> bool" where
  "registry_inv pb =
     (no_children pb \<and> no_dangling pb \<and>
      (\<forall>i<nr_objects pb. po_delta (object_list pb ! i) \<noteq> None \<longrightarrow>
                            candidate pb (object_list pb ! i)) \<and>
      (\<forall>i<nr_objects pb. \<exists>d\<le>unat GIT_PACK_DEPTH. chain (delta_links pb) d i))"

text \<open>
  The sessions that \<open>git_packbuilder_new\<close>, successful calls of \<open>git_packbuilder_insert\<close>
  under an allocator that never moves \<open>object_list\<close>, and successful runs of
  \<open>prepare_pack\<close> lead to, whatever the other collaborators answer.  \<open>write_pack\<close> is
  not among the steps: these are sessions of which no build has written a pack yet.
\<close>

inductive reachable_in_place :: "git_packbuilder \<Rightarrow> bool" where
  in_place_new: "git_packbuilder_new env = Inr pb \<Longrightarrow> reachable_in_place pb"
| in_place_insert:
    "reachable_in_place pb \<Longrightarrow> git_packbuilder_insert env pb oid name = Inr pb' \<Longrightarrow>
     \<forall>n. \<not> git__realloc_moves env n \<Longrightarrow> reachable_in_place pb'"
| in_place_prepare_pack:
    "reachable_in_place pb \<Longrightarrow> prepare_pack env pb = Inr pb' \<Longrightarrow> reachable_in_place pb'"


section \<open>Properties of gen_pack_object_header\<close>

lemma hdr_loop_bound:
  "unat sz < 2 ^ (7 * k) \<Longrightarrow> hdr + k < length buf \<Longrightarrow>
   \<exists>buf' n. hdr_loop buf hdr sz c = Inr (buf', n) \<and> hdr < n \<and> n \<le> hdr + k + 1 \<and>
     length buf' = length buf \<and> drop n buf' = drop n buf"
proof (induction k arbitrary: buf hdr sz c)
  case 0
  then have "sz = 0" by (simp add: unat_eq_0)
  with 0 show ?case by simp
next
  case (Suc k)
  show ?case
  proof (cases "sz = 0")
    case True
    with Suc.prems show ?thesis by simp
  next
    case False
    have "unat (drop_bit 7 sz) = unat sz div 2 ^ 7" by (rule unat_drop_bit_div)
    moreover have "unat sz < 2 ^ 7 * 2 ^ (7 * k)" using Suc.prems(1) by (simp add: power_add)
    ultimately have a: "unat (drop_bit 7 sz) < 2 ^ (7 * k)"
      by (simp add: less_mult_imp_div_less mult.commute)
    have b: "(hdr + 1) + k < length (buf[hdr := c OR 0x80])" using Suc.prems(2) by simp
    from Suc.IH[OF a b, of "ucast (sz AND 0x7f)"] obtain buf' n where
      h: "hdr_loop (buf[hdr := c OR 0x80]) (hdr + 1) (drop_bit 7 sz) (ucast (sz AND 0x7f)) = Inr (buf', n)"
         "hdr + 1 < n" "n \<le> hdr + 1 + k + 1" "length buf' = length (buf[hdr := c OR 0x80])"
         "drop n buf' = drop n (buf[hdr := c OR 0x80])"
      by blast
    have "hdr < length buf" using Suc.prems(2) by simp
    with False h show ?thesis by (simp del: hdr_loop.simps add: hdr_loop.simps[of buf hdr sz c])
  qed
qed

lemma drop4_bound: "unat (drop_bit 4 (sz :: u64)) < 2 ^ (7 * 9)"
proof -
  have "unat (drop_bit 4 sz) = unat sz div 2 ^ 4" by (rule unat_drop_bit_div)
  moreover have "unat sz < 2 ^ 64" using unsigned_less[of sz, where 'a = nat] by simp
  ultimately show ?thesis by simp
qed

text \<open>
  C10.  For every 64-bit size and every object type, \<open>gen_pack_object_header\<close> called on
  a ten-byte buffer (the \<open>hdr[10]\<close> of \<open>write_object\<close>) never stores past the end of the
  buffer: it returns a length \<open>n\<close> between 1 and 10, and it has written exactly the
  first \<open>n\<close> bytes, the bytes from offset \<open>n\<close> on being left as they were.
\<close>

theorem gen_pack_object_header_fits:
  "length hdr = 10 \<Longrightarrow>
   \<exists>hdr' n. gen_pack_object_header hdr sz type = Inr (hdr', n) \<and> 1 \<le> n \<and> n \<le> 10 \<and>
     length hdr' = 10 \<and> drop n hdr' = drop n hdr"
proof -
  assume l: "length hdr = 10"
  then have "0 + 9 < length hdr" by simp
  from hdr_loop_bound[OF drop4_bound this] l show ?thesis
    unfolding gen_pack_object_header_def by fastforce
qed

theorem gen_pack_object_header_fits_witness:
  "length (replicate 10 (0 :: byte)) = 10 \<and>
   gen_pack_object_header (replicate 10 0) 0xFFFFFFFFFFFFFFFF GIT_OBJ_BLOB =
     Inr ([0xBF, 0xFF, 0xFF, 0xFF, 0xFF, 0xFF, 0xFF, 0xFF, 0xFF, 0x0F], 10) \<and>
   gen_pack_object_header (replicate 10 0) 300 GIT_OBJ_REF_DELTA =
     Inr ([0xFC, 0x12, 0, 0, 0, 0, 0, 0, 0, 0], 2)"
proof -
  have l: "length (replicate 10 (0 :: byte)) = 10" by simp
  from gen_pack_object_header_fits[OF l, of "0xFFFFFFFFFFFFFFFF" GIT_OBJ_BLOB]
  obtain h n where "gen_pack_object_header (replicate 10 0) 0xFFFFFFFFFFFFFFFF GIT_OBJ_BLOB = Inr (h, n)"
    by blast
  moreover have "gen_pack_object_header (replicate 10 0) 0xFFFFFFFFFFFFFFFF GIT_OBJ_BLOB =
     Inr ([0xBF, 0xFF, 0xFF, 0xFF, 0xFF, 0xFF, 0xFF, 0xFF, 0xFF, 0x0F], 10)"
    by code_simp
  moreover have "gen_pack_object_header (replicate 10 0) 300 GIT_OBJ_REF_DELTA =
     Inr ([0xFC, 0x12, 0, 0, 0, 0, 0, 0, 0, 0], 2)"
    by code_simp
  ultimately show ?thesis using l by simp
qed

section \<open>Properties of name_hash\<close>

lemma name_bytes_Cons:
  "name_bytes (c # s) = (if c = 0 then [] else if git__isspace c then name_bytes s else c # name_bytes s)"
  by (simp add: name_bytes_def)

lemma name_hash_loop_name_bytes: "name_hash_loop s h = name_hash_loop (name_bytes s) h"
proof (induction s arbitrary: h)
  case Nil
  show ?case by (simp add: name_bytes_def)
next
  case (Cons c s)
  show ?case
  proof (cases "c = 0")
    case True
    then show ?thesis by (simp add: name_bytes_Cons)
  next
    case False
    then show ?thesis using Cons.IH by (simp add: name_bytes_Cons)
  qed
qed

lemma unat_push24: "unat (push_bit 24 (ucast (c :: byte)) :: u32) = unat c * 2 ^ 24"
proof -
  have c: "unat c < 2 ^ 8" using unsigned_less[of c, where 'a = nat] by simp
  have u: "unat (ucast c :: u32) = unat c"
    using c by (simp add: unsigned_ucast_eq take_bit_nat_eq_self)
  have "unat (ucast c :: u32) * unat (2 ^ 24 :: u32) < 2 ^ LENGTH(32)"
    using c by (simp add: u)
  then have "unat ((ucast c :: u32) * 2 ^ 24) = unat (ucast c :: u32) * unat (2 ^ 24 :: u32)"
    by (simp only: unat_mult_lem)
  then show ?thesis by (simp add: push_bit_eq_mult u)
qed

lemma step_nowrap:
  assumes "c \<le> 0xC0"
  shows "unat (drop_bit 2 (h :: u32) + push_bit 24 (ucast (c :: byte))) = unat h div 4 + unat c * 2 ^ 24"
proof -
  have c: "unat c \<le> 192" using assms by (simp add: word_le_nat_alt)
  have "unat h < 2 ^ 32" using unsigned_less[of h, where 'a = nat] by simp
  then have h: "unat (drop_bit 2 h) < 2 ^ 30" by (simp add: unat_drop_bit_div)
  have "unat (drop_bit 2 h) + unat (push_bit 24 (ucast c) :: u32) < 2 ^ LENGTH(32)"
    using c h by (simp add: unat_push24)
  then have "unat (drop_bit 2 h + push_bit 24 (ucast c)) = unat (drop_bit 2 h) + unat (push_bit 24 (ucast c) :: u32)"
    by (simp only: unat_add_lem)
  then show ?thesis by (simp add: unat_push24 unat_drop_bit_div)
qed

lemma loop_hash_nat:
  "\<forall>c\<in>set s. c \<le> 0xC0 \<and> c \<noteq> 0 \<and> \<not> git__isspace c \<Longrightarrow> unat (name_hash_loop s h) = hash_nat s (unat h)"
proof (induction s arbitrary: h)
  case Nil
  show ?case by simp
next
  case (Cons c s)
  then show ?case by (simp add: step_nowrap)
qed

lemma hash_nat_append: "hash_nat (xs @ ys) h = hash_nat ys (hash_nat xs h)"
  by (induction xs arbitrary: h) simp_all

lemma hash_nat_close:
  "a \<le> b \<Longrightarrow> b \<le> a + 4 ^ (m + length s) \<Longrightarrow>
   hash_nat s a \<le> hash_nat s b \<and> hash_nat s b \<le> hash_nat s a + 4 ^ m"
proof (induction s arbitrary: a b)
  case Nil
  then show ?case by simp
next
  case (Cons c s)
  have 1: "a div 4 \<le> b div 4" using Cons.prems(1) by (rule div_le_mono)
  have "b div 4 \<le> (a + 4 * 4 ^ (m + length s)) div 4"
    using Cons.prems(2) by (intro div_le_mono) simp
  then have 2: "b div 4 \<le> a div 4 + 4 ^ (m + length s)" by simp
  from Cons.IH[of "a div 4 + unat c * 2 ^ 24" "b div 4 + unat c * 2 ^ 24"] 1 2
  show ?case by simp
qed


lemma name_bytes_set: "c \<in> set (name_bytes s) \<Longrightarrow> c \<noteq> 0 \<and> \<not> git__isspace c"
  by (auto simp: name_bytes_def dest: set_takeWhileD)

lemma last16_short: "length xs \<le> 16 \<Longrightarrow> last16 xs = xs"
  by (simp add: last16_def)

lemma last16_length: "length (last16 xs) = min 16 (length xs)"
  by (simp add: last16_def)

lemma last16_split: "xs = take (length xs - 16) xs @ last16 xs"
  by (simp add: last16_def)

lemma last16_eq_short:
  assumes "last16 xs = last16 ys" and "length xs < 16"
  shows "xs = ys"
proof -
  have "length (last16 ys) = length xs" using assms by (simp add: last16_short)
  then have "length ys \<le> 16" using assms(2) by (simp add: last16_length)
  then show ?thesis using assms by (simp add: last16_short)
qed

lemma word_succ_cases:
  fixes x y :: u32
  assumes "unat x \<le> unat y" and "unat y \<le> unat x + 1"
  shows "y = x \<or> y = x + 1"
proof (cases "unat y = unat x")
  case True
  then show ?thesis by (simp add: word_unat_eq_iff)
next
  case False
  then have e: "unat y = unat x + 1" using assms by simp
  have "unat y < 2 ^ LENGTH(32)" using unsigned_less[of y, where 'a = nat] by simp
  then have "unat x + unat (1 :: u32) < 2 ^ LENGTH(32)" using e by simp
  then have "unat (x + 1) = unat x + unat (1 :: u32)" by (simp only: unat_add_lem)
  then have "unat (x + 1) = unat y" using e by simp
  then show ?thesis by (simp add: word_unat_eq_iff)
qed

lemma hash_nat_tail:
  fixes p q t :: "byte list"
  assumes p: "\<forall>c\<in>set (p @ t). c \<le> 0xC0 \<and> c \<noteq> 0 \<and> \<not> git__isspace c"
    and q: "\<forall>c\<in>set (q @ t). c \<le> 0xC0 \<and> c \<noteq> 0 \<and> \<not> git__isspace c"
    and t: "length t = 16"
    and le: "unat (name_hash_loop p 0) \<le> unat (name_hash_loop q 0)"
  shows "name_hash_loop (q @ t) 0 = name_hash_loop (p @ t) 0 \<or>
         name_hash_loop (q @ t) 0 = name_hash_loop (p @ t) 0 + 1"
proof -
  let ?a = "unat (name_hash_loop p 0)" and ?b = "unat (name_hash_loop q 0)"
  have pa: "unat (name_hash_loop (p @ t) 0) = hash_nat t ?a"
    using p by (simp add: loop_hash_nat hash_nat_append)
  have qb: "unat (name_hash_loop (q @ t) 0) = hash_nat t ?b"
    using q by (simp add: loop_hash_nat hash_nat_append)
  have "?b < 2 ^ 32" using unsigned_less[of "name_hash_loop q 0", where 'a = nat] by simp
  then have "?b \<le> ?a + 4 ^ (0 + length t)" using t by simp
  from hash_nat_close[OF le this]
  have "hash_nat t ?a \<le> hash_nat t ?b \<and> hash_nat t ?b \<le> hash_nat t ?a + 1" by simp
  then show ?thesis using pa qb by (intro word_succ_cases) simp_all
qed

text \<open>
  C6 (as amended).  Let two names agree on their last sixteen non-whitespace bytes.
  If both have at most sixteen non-whitespace bytes, \<open>name_hash\<close> gives them the same
  value.  If all their non-whitespace bytes are at most \<open>0xC0\<close> (every ASCII name), the
  two values are equal or differ by exactly one: the bytes before the last sixteen reach
  the result only as a carry of one unit.  A null name hashes to 0.
\<close>

theorem name_hash_last16:
  assumes eq: "last16 (name_bytes a) = last16 (name_bytes b)"
  shows "(length (name_bytes a) \<le> 16 \<and> length (name_bytes b) \<le> 16 \<longrightarrow>
            name_hash (Some a) = name_hash (Some b)) \<and>
         ((\<forall>c\<in>set (name_bytes a) \<union> set (name_bytes b). c \<le> 0xC0) \<longrightarrow>
            (name_hash (Some a) = name_hash (Some b) \<or>
             name_hash (Some a) = name_hash (Some b) + 1 \<or>
             name_hash (Some b) = name_hash (Some a) + 1)) \<and>
         name_hash None = 0"
proof (intro conjI impI)
  assume "length (name_bytes a) \<le> 16 \<and> length (name_bytes b) \<le> 16"
  with eq have "name_bytes a = name_bytes b" by (simp add: last16_short)
  then show "name_hash (Some a) = name_hash (Some b)"
    by (simp add: name_hash_def name_hash_loop_name_bytes[of a] name_hash_loop_name_bytes[of b])
next
  show "name_hash None = 0" by (simp add: name_hash_def)
next
  assume bound: "\<forall>c\<in>set (name_bytes a) \<union> set (name_bytes b). c \<le> 0xC0"
  let ?A = "name_bytes a" and ?B = "name_bytes b"
  show "name_hash (Some a) = name_hash (Some b) \<or>
        name_hash (Some a) = name_hash (Some b) + 1 \<or>
        name_hash (Some b) = name_hash (Some a) + 1"
  proof (cases "length ?A < 16")
    case True
    with eq have "?A = ?B" by (rule last16_eq_short)
    then show ?thesis
      by (simp add: name_hash_def name_hash_loop_name_bytes[of a] name_hash_loop_name_bytes[of b])
  next
    case False
    define t where "t = last16 ?A"
    define p where "p = take (length ?A - 16) ?A"
    define q where "q = take (length ?B - 16) ?B"
    have A: "?A = p @ t" unfolding p_def t_def by (rule last16_split)
    have B: "?B = q @ t" unfolding q_def t_def eq by (rule last16_split)
    have t: "length t = 16" using False by (simp add: t_def last16_length)
    have pc: "\<forall>c\<in>set (p @ t). c \<le> 0xC0 \<and> c \<noteq> 0 \<and> \<not> git__isspace c"
      using bound name_bytes_set[of _ a] unfolding A[symmetric] by blast
    have qc: "\<forall>c\<in>set (q @ t). c \<le> 0xC0 \<and> c \<noteq> 0 \<and> \<not> git__isspace c"
      using bound name_bytes_set[of _ b] unfolding B[symmetric] by blast
    have ha: "name_hash (Some a) = name_hash_loop (p @ t) 0"
      by (simp add: name_hash_def name_hash_loop_name_bytes[of a] A)
    have hb: "name_hash (Some b) = name_hash_loop (q @ t) 0"
      by (simp add: name_hash_def name_hash_loop_name_bytes[of b] B)
    show ?thesis
    proof (cases "unat (name_hash_loop p 0) \<le> unat (name_hash_loop q 0)")
      case True
      from hash_nat_tail[OF pc qc t True] show ?thesis unfolding ha hb by auto
    next
      case False
      then have "unat (name_hash_loop q 0) \<le> unat (name_hash_loop p 0)" by simp
      from hash_nat_tail[OF qc pc t this] show ?thesis unfolding ha hb by auto
    qed
  qed
qed

theorem name_hash_last16_witness:
  "last16 (name_bytes (bytes_of ''docs/README.md.backup'')) = last16 (name_bytes (bytes_of ''README.md.backup'')) \<and>
   list_all (\<lambda>c. c \<le> 0xC0) (name_bytes (bytes_of ''docs/README.md.backup'') @ name_bytes (bytes_of ''README.md.backup'')) \<and>
   name_hash (Some (bytes_of ''docs/README.md.backup'')) = name_hash (Some (bytes_of ''README.md.backup'')) + 1 \<and>
   last16 (name_bytes (bytes_of ''a b.c'')) = last16 (name_bytes (bytes_of ''ab .c'')) \<and>
   length (name_bytes (bytes_of ''a b.c'')) \<le> 16 \<and> length (name_bytes (bytes_of ''ab .c'')) \<le> 16 \<and>
   name_hash (Some (bytes_of ''a b.c'')) = name_hash (Some (bytes_of ''ab .c''))"
proof -
  let ?a = "bytes_of ''docs/README.md.backup''" and ?b = "bytes_of ''README.md.backup''"
  have e1: "last16 (name_bytes ?a) = last16 (name_bytes ?b)"
    by (simp add: last16_def name_bytes_def bytes_of_def git__isspace_def)
  have b1: "list_all (\<lambda>c. c \<le> 0xC0) (name_bytes ?a @ name_bytes ?b)"
    by (simp add: name_bytes_def bytes_of_def git__isspace_def)
  then have b1': "\<forall>c\<in>set (name_bytes ?a) \<union> set (name_bytes ?b). c \<le> 0xC0"
    by (simp only: list_all_iff set_append)
  have n1: "name_hash (Some ?a) \<noteq> name_hash (Some ?b)"
    by (simp add: name_hash_def bytes_of_def git__isspace_def)
  have n2: "name_hash (Some ?b) \<noteq> name_hash (Some ?a) + 1"
    by (simp add: name_hash_def bytes_of_def git__isspace_def)
  from name_hash_last16[OF e1] b1' n1 n2
  have r1: "name_hash (Some ?a) = name_hash (Some ?b) + 1" by blast
  have e2: "last16 (name_bytes (bytes_of ''a b.c'')) = last16 (name_bytes (bytes_of ''ab .c''))"
    by (simp add: last16_def name_bytes_def bytes_of_def git__isspace_def)
  have l2: "length (name_bytes (bytes_of ''a b.c'')) \<le> 16 \<and> length (name_bytes (bytes_of ''ab .c'')) \<le> 16"
    by (simp add: name_bytes_def bytes_of_def git__isspace_def)
  from name_hash_last16[OF e2] l2
  have r2: "name_hash (Some (bytes_of ''a b.c'')) = name_hash (Some (bytes_of ''ab .c''))" by blast
  from e1 b1 r1 e2 l2 r2 show ?thesis by blast
qed

text \<open>
  The claim as stated fails: \<open>docs/README.md.backup\<close> and \<open>README.md.backup\<close> have the
  same last sixteen non-whitespace bytes and different hashes.
\<close>

theorem name_hash_last16_counterexample:
  "last16 (name_bytes (bytes_of ''docs/README.md.backup'')) = last16 (name_bytes (bytes_of ''README.md.backup'')) \<and>
   name_hash (Some (bytes_of ''docs/README.md.backup'')) \<noteq> name_hash (Some (bytes_of ''README.md.backup''))"
  by (simp add: last16_def name_bytes_def name_hash_def bytes_of_def git__isspace_def)

text \<open>
  The bound on the bytes is needed: with bytes above \<open>0xC0\<close> the additions wrap, and one
  earlier byte changes the hash by far more than one unit.
\<close>

lemma name_hash_high_bytes_example:
  "last16 (name_bytes (0x7A # replicate 16 0xE9)) = last16 (name_bytes (replicate 16 0xE9)) \<and>
   name_hash (Some (0x7A # replicate 16 0xE9)) = 4066797157 \<and>
   name_hash (Some (replicate 16 0xE9)) = 630823321"
  by code_simp

section \<open>Properties of packbuilder_config\<close>

lemma config_get_cases:
  "config_get env key d =
     (if git_config_get_int64 env key = CFG_ERROR then Inl ECONFIG
      else Inr (config_or_default env key d))"
  by (simp add: config_get_def config_or_default_def split: cfg_lookup.split)

text \<open>
  C8.  \<open>packbuilder_config\<close> stores, for each of its four reads, the value the
  configuration holds, and the default exactly when the lookup answers \<open>NOT_FOUND\<close>
  (\<open>config_or_default\<close>); any other failing lookup, or a repository without a
  configuration, makes it fail, and with it \<open>git_packbuilder_new\<close>.  The key
  \<open>pack.deltaCacheSize\<close> is read twice: into \<open>max_delta_cache_size\<close> with the default
  \<open>GIT_PACK_DELTA_CACHE_SIZE\<close> and into \<open>big_file_threshold\<close> with the default
  \<open>GIT_PACK_BIG_FILE_THRESHOLD\<close>.
\<close>

theorem packbuilder_config_defaults:
  "packbuilder_config env pb =
     (if git_config_get_int64 env ''pack.deltaCacheSize'' = CFG_ERROR \<or>
         git_config_get_int64 env ''pack.deltaCacheLimit'' = CFG_ERROR \<or>
         git_config_get_int64 env ''pack.windowMemory'' = CFG_ERROR \<or>
         \<not> git_repository_config env
      then Inl ECONFIG
      else Inr (pb\<lparr>
        max_delta_cache_size := config_or_default env ''pack.deltaCacheSize'' GIT_PACK_DELTA_CACHE_SIZE,
        cache_max_small_delta_size := config_or_default env ''pack.deltaCacheLimit'' GIT_PACK_DELTA_CACHE_LIMIT,
        big_file_threshold := config_or_default env ''pack.deltaCacheSize'' GIT_PACK_BIG_FILE_THRESHOLD,
        window_memory_limit := config_or_default env ''pack.windowMemory'' 0\<rparr>)) \<and>
   git_packbuilder_new env =
     (if \<not> git__malloc env 1 then Inl ENOMEM
      else if \<not> git_repository_odb env then Inl EODB
      else packbuilder_config env (zeroed_packbuilder\<lparr>nr_threads := 1, ctx := []\<rparr>))"
  by (simp add: packbuilder_config_def git_packbuilder_new_def config_get_cases Let_def)

theorem packbuilder_config_defaults_witness:
  "(case git_packbuilder_new example_env of
      Inr pb \<Rightarrow> max_delta_cache_size pb = 268435456 \<and> cache_max_small_delta_size pb = 1000 \<and>
                big_file_threshold pb = 536870912 \<and> window_memory_limit pb = 0
    | Inl e \<Rightarrow> False) \<and>
   (case git_packbuilder_new (example_env\<lparr>git_config_get_int64 :=
        (\<lambda>k. if k = ''pack.deltaCacheSize'' then CFG_VALUE 42 else CFG_ENOTFOUND)\<rparr>) of
      Inr pb \<Rightarrow> max_delta_cache_size pb = 42 \<and> cache_max_small_delta_size pb = 1000 \<and>
                big_file_threshold pb = 42 \<and> window_memory_limit pb = 0
    | Inl e \<Rightarrow> False) \<and>
   git_packbuilder_new (example_env\<lparr>git_config_get_int64 :=
        (\<lambda>k. if k = ''pack.windowMemory'' then CFG_ERROR else CFG_ENOTFOUND)\<rparr>) = Inl ECONFIG"
proof -
  note th = packbuilder_config_defaults
  show ?thesis
    by (simp add: th example_env_def config_or_default_def
        GIT_PACK_DELTA_CACHE_SIZE_def GIT_PACK_DELTA_CACHE_LIMIT_def GIT_PACK_BIG_FILE_THRESHOLD_def)
qed

section \<open>Properties of try_delta\<close>

lemma try_delta_accept_ret:
  "try_delta_accept env pb array t s to so delta_buf mem = Inr (pb', a', m', r) \<Longrightarrow> r = 0 \<or> r = 1"
  by (auto simp: try_delta_accept_def Let_def split: if_splits)

lemma try_delta_search_ret:
  "try_delta_search env pb array t s to so max_size mem = Inr (pb', a', m', r) \<Longrightarrow> r = 0 \<or> r = 1"
  by (auto simp: try_delta_search_def Let_def split: sum.splits option.splits if_splits prod.splits
      dest: try_delta_accept_ret)

text \<open>
  C5.  For a target slot \<open>t\<close> and a source slot \<open>s\<close> of the window that hold registered
  entries, \<open>try_delta\<close> applies its filters in this order.  It answers \<open>ret = -1\<close>,
  leaving everything as it was, when the two types differ, and never otherwise (then
  \<open>ret\<close> is 0 or 1).  With equal types it skips the pair (\<open>ret = 0\<close>, nothing read and
  nothing changed) when the source's depth has reached \<open>max_depth\<close>; and, below that
  depth, when \<open>max_size\<close>, which is \<open>size / 2 - 20\<close> with reference depth 1 for a target
  without a delta and \<open>delta_size\<close> with the target's depth otherwise, scaled by
  \<open>(max_depth - source depth) / (max_depth - reference depth + 1)\<close>, is 0, or is at most
  \<open>max(0, target size - source size)\<close>, or when the target is smaller than a 32nd of the
  source.  (The scaling divides; a divisor of 0 is undefined behaviour and excluded.)
\<close>

theorem try_delta_filters:
  assumes "u_object (array ! t) = Some to" and "u_object (array ! s) = Some so"
    and "to < nr_objects pb" and "so < nr_objects pb"
  shows
  "(po_type (object_list pb ! to) \<noteq> po_type (object_list pb ! so) \<longrightarrow>
      try_delta env pb array t s max_depth mem = Inr (pb, array, mem, - 1)) \<and>
   (po_type (object_list pb ! to) = po_type (object_list pb ! so) \<longrightarrow>
      (\<forall>pb' a' m' r. try_delta env pb array t s max_depth mem = Inr (pb', a', m', r) \<longrightarrow> r = 0 \<or> r = 1)) \<and>
   (po_type (object_list pb ! to) = po_type (object_list pb ! so) \<and>
    u_depth (array ! s) \<ge> max_depth \<longrightarrow>
      try_delta env pb array t s max_depth mem = Inr (pb, array, mem, 0)) \<and>
   (po_type (object_list pb ! to) = po_type (object_list pb ! so) \<and>
    u_depth (array ! s) < max_depth \<and>
    max_depth - spec_ref_depth (object_list pb ! to) (u_depth (array ! t)) + 1 \<noteq> 0 \<and>
    (spec_max_size (object_list pb ! to) (u_depth (array ! t)) (u_depth (array ! s)) max_depth = 0 \<or>
     spec_sizediff (object_list pb ! to) (object_list pb ! so)
       \<ge> spec_max_size (object_list pb ! to) (u_depth (array ! t)) (u_depth (array ! s)) max_depth \<or>
     po_size (object_list pb ! to) < po_size (object_list pb ! so) div 32) \<longrightarrow>
      try_delta env pb array t s max_depth mem = Inr (pb, array, mem, 0))"
proof (intro conjI impI allI)
  assume "po_type (object_list pb ! to) \<noteq> po_type (object_list pb ! so)"
  with assms show "try_delta env pb array t s max_depth mem = Inr (pb, array, mem, - 1)"
    by (simp add: try_delta_def Let_def)
next
  fix pb' a' m' r
  assume "po_type (object_list pb ! to) = po_type (object_list pb ! so)"
    and "try_delta env pb array t s max_depth mem = Inr (pb', a', m', r)"
  with assms show "r = 0 \<or> r = 1"
    by (auto simp: try_delta_def Let_def split: if_splits dest: try_delta_search_ret)
next
  assume "po_type (object_list pb ! to) = po_type (object_list pb ! so) \<and> u_depth (array ! s) \<ge> max_depth"
  with assms show "try_delta env pb array t s max_depth mem = Inr (pb, array, mem, 0)"
    by (simp add: try_delta_def Let_def)
next
  assume "po_type (object_list pb ! to) = po_type (object_list pb ! so) \<and>
    u_depth (array ! s) < max_depth \<and>
    max_depth - spec_ref_depth (object_list pb ! to) (u_depth (array ! t)) + 1 \<noteq> 0 \<and>
    (spec_max_size (object_list pb ! to) (u_depth (array ! t)) (u_depth (array ! s)) max_depth = 0 \<or>
     spec_sizediff (object_list pb ! to) (object_list pb ! so)
       \<ge> spec_max_size (object_list pb ! to) (u_depth (array ! t)) (u_depth (array ! s)) max_depth \<or>
     po_size (object_list pb ! to) < po_size (object_list pb ! so) div 32)"
  with assms show "try_delta env pb array t s max_depth mem = Inr (pb, array, mem, 0)"
    by (auto simp: try_delta_def Let_def spec_max_size_def spec_ref_depth_def spec_sizediff_def
        not_le[symmetric] split: if_splits)
qed


theorem try_delta_filters_witness:
  "try_delta example_env filter_registry filter_window 0 2 50 0 = Inr (filter_registry, filter_window, 0, - 1) \<and>
   try_delta example_env filter_registry filter_window 0 5 50 0 = Inr (filter_registry, filter_window, 0, 0) \<and>
   try_delta example_env filter_registry filter_window 4 0 50 0 = Inr (filter_registry, filter_window, 0, 0) \<and>
   try_delta example_env filter_registry filter_window 0 1 50 0 = Inr (filter_registry, filter_window, 0, 0) \<and>
   try_delta example_env filter_registry filter_window 0 3 50 0 = Inr (filter_registry, filter_window, 0, 0)"
proof -
  note defs = filter_registry_def filter_window_def zeroed_packbuilder_def new_pobject_def
    spec_max_size_def spec_ref_depth_def spec_sizediff_def
  have n: "nr_objects filter_registry = 5" by (simp add: defs)
  have 1: "try_delta example_env filter_registry filter_window 0 2 50 0 = Inr (filter_registry, filter_window, 0, - 1)"
    using try_delta_filters[of filter_window 0 0 2 2 filter_registry example_env 50 0]
    by (simp add: defs)
  have 2: "try_delta example_env filter_registry filter_window 0 5 50 0 = Inr (filter_registry, filter_window, 0, 0)"
    using try_delta_filters[of filter_window 0 0 5 1 filter_registry example_env 50 0]
    by (simp add: defs)
  have 3: "try_delta example_env filter_registry filter_window 4 0 50 0 = Inr (filter_registry, filter_window, 0, 0)"
    using try_delta_filters[of filter_window 4 4 0 0 filter_registry example_env 50 0]
    by (simp add: defs)
  have 4: "try_delta example_env filter_registry filter_window 0 1 50 0 = Inr (filter_registry, filter_window, 0, 0)"
    using try_delta_filters[of filter_window 0 0 1 1 filter_registry example_env 50 0]
    by (simp add: defs)
  have 5: "try_delta example_env filter_registry filter_window 0 3 50 0 = Inr (filter_registry, filter_window, 0, 0)"
    using try_delta_filters[of filter_window 0 0 3 3 filter_registry example_env 50 0]
    by (simp add: defs)
  from 1 2 3 4 5 show ?thesis by simp
qed

section \<open>Properties of the candidate list of prepare_pack\<close>

lemma otype_code_inj: "otype_code a = otype_code b \<Longrightarrow> a = b"
  by (cases a; cases b) simp_all

lemma cmp_chain_le:
  fixes ta tb :: nat and ha hb :: u32 and sa sb :: u64 and a b :: nat
  shows "((if ta > tb then - 1 else if ta < tb then 1 else if ha > hb then - 1 else if ha < hb then 1
           else if sa > sb then - 1 else if sa < sb then 1
           else if a < b then - 1 else (if a > b then 1 else 0)) \<le> (0::int)) \<longleftrightarrow>
         (ta > tb \<or> (ta = tb \<and> (ha > hb \<or> (ha = hb \<and> (sa > sb \<or> (sa = sb \<and> a \<le> b))))))"
  by (cases ta tb rule: linorder_cases; cases ha hb rule: linorder_cases;
      cases sa sb rule: linorder_cases; cases a b rule: linorder_cases) auto

lemma sorts_before_alt:
  "sorts_before objs a b \<longleftrightarrow>
     (otype_code (po_type (objs ! a)) > otype_code (po_type (objs ! b)) \<or>
      (otype_code (po_type (objs ! a)) = otype_code (po_type (objs ! b)) \<and>
       (po_hash (objs ! a) > po_hash (objs ! b) \<or>
        (po_hash (objs ! a) = po_hash (objs ! b) \<and>
         (po_size (objs ! a) > po_size (objs ! b) \<or>
          (po_size (objs ! a) = po_size (objs ! b) \<and> a < b))))))"
proof -
  have "po_type (objs ! a) = po_type (objs ! b) \<longleftrightarrow>
        otype_code (po_type (objs ! a)) = otype_code (po_type (objs ! b))"
    by (auto dest: otype_code_inj)
  then show ?thesis unfolding sorts_before_def by simp
qed

lemma chain_lt_trans:
  fixes ta tb tc :: nat and ha hb hc :: u32 and sa sb sc :: u64 and a b c :: nat
  assumes "ta > tb \<or> (ta = tb \<and> (ha > hb \<or> (ha = hb \<and> (sa > sb \<or> (sa = sb \<and> a < b)))))"
    and "tb > tc \<or> (tb = tc \<and> (hb > hc \<or> (hb = hc \<and> (sb > sc \<or> (sb = sc \<and> b < c)))))"
  shows "ta > tc \<or> (ta = tc \<and> (ha > hc \<or> (ha = hc \<and> (sa > sc \<or> (sa = sc \<and> a < c)))))"
  using assms
  by (cases ta tb rule: linorder_cases; cases tb tc rule: linorder_cases;
      cases ha hb rule: linorder_cases; cases hb hc rule: linorder_cases;
      cases sa sb rule: linorder_cases; cases sb sc rule: linorder_cases) auto

lemma chain_lt_total:
  fixes ta tb :: nat and ha hb :: u32 and sa sb :: u64 and a b :: nat
  assumes "a \<noteq> b"
    and "\<not> (ta > tb \<or> (ta = tb \<and> (ha > hb \<or> (ha = hb \<and> (sa > sb \<or> (sa = sb \<and> a < b))))))"
  shows "tb > ta \<or> (tb = ta \<and> (hb > ha \<or> (hb = ha \<and> (sb > sa \<or> (sb = sa \<and> b < a)))))"
  using assms
  by (cases ta tb rule: linorder_cases; cases ha hb rule: linorder_cases;
      cases sa sb rule: linorder_cases; cases a b rule: linorder_cases) auto

lemma type_size_sort_le: "type_size_sort objs a b \<le> 0 \<longleftrightarrow> a = b \<or> sorts_before objs a b"
  unfolding type_size_sort_def sorts_before_alt cmp_chain_le by auto

lemma sorts_before_trans: "sorts_before objs a b \<Longrightarrow> sorts_before objs b c \<Longrightarrow> sorts_before objs a c"
  unfolding sorts_before_alt by (rule chain_lt_trans)

lemma sorts_before_total: "a \<noteq> b \<Longrightarrow> \<not> sorts_before objs a b \<Longrightarrow> sorts_before objs b a"
  unfolding sorts_before_alt by (rule chain_lt_total)

lemma sorts_before_irrefl: "\<not> sorts_before objs a a"
  by (simp add: sorts_before_def)

lemma set_tsort_insert: "set (tsort_insert cmp x ys) = insert x (set ys)"
  by (induction ys) auto

lemma set_git__tsort: "set (git__tsort cmp xs) = set xs"
  unfolding git__tsort_def by (induction xs) (simp_all add: set_tsort_insert)

lemma distinct_tsort_insert: "distinct ys \<Longrightarrow> x \<notin> set ys \<Longrightarrow> distinct (tsort_insert cmp x ys)"
  by (induction ys) (auto simp: set_tsort_insert)

lemma distinct_git__tsort: "distinct xs \<Longrightarrow> distinct (git__tsort cmp xs)"
  unfolding git__tsort_def
  by (induction xs) (simp_all add: distinct_tsort_insert set_git__tsort[unfolded git__tsort_def])

lemma sorted_tsort_insert:
  "sorted_wrt (sorts_before objs) ys \<Longrightarrow> x \<notin> set ys \<Longrightarrow>
   sorted_wrt (sorts_before objs) (tsort_insert (type_size_sort objs) x ys)"
proof (induction ys)
  case Nil
  show ?case by simp
next
  case (Cons y ys)
  show ?case
  proof (cases "type_size_sort objs x y \<le> 0")
    case True
    then have xy: "sorts_before objs x y" using Cons.prems(2) by (simp add: type_size_sort_le)
    then have "\<forall>z\<in>set ys. sorts_before objs x z"
      using Cons.prems(1) by (auto intro: sorts_before_trans)
    with True xy Cons.prems(1) show ?thesis by simp
  next
    case False
    then have "sorts_before objs y x"
      using Cons.prems(2) by (auto simp: type_size_sort_le intro: sorts_before_total)
    with False Cons show ?thesis by (auto simp: set_tsort_insert)
  qed
qed

lemma sorted_git__tsort:
  "distinct xs \<Longrightarrow> sorted_wrt (sorts_before objs) (git__tsort (type_size_sort objs) xs)"
  unfolding git__tsort_def
  by (induction xs) (simp_all add: sorted_tsort_insert set_git__tsort[unfolded git__tsort_def])

text \<open>
  C7.  The list that \<open>prepare_pack\<close> hands to the delta search, built after
  \<open>get_object_details\<close> has set the \<open>no_try_delta\<close> flags, holds exactly the registered
  entries with \<open>size >= 50\<close> whose \<open>no_try_delta\<close> is unset, each once; sorted, it is in
  descending order of type, then of name hash, then of size, and entries equal in all
  three stand in the order of their addresses, the entry inserted earlier (the source's
  "newest") first.
\<close>

theorem sorted_delta_list_candidates:
  "set (sorted_delta_list (get_object_details pb)) =
     {i. i < nr_objects pb \<and> po_size (object_list pb ! i) \<ge> 50 \<and>
         \<not> po_no_try_delta (object_list (get_object_details pb) ! i)} \<and>
   distinct (sorted_delta_list (get_object_details pb)) \<and>
   sorted_wrt (sorts_before (object_list (get_object_details pb))) (sorted_delta_list (get_object_details pb))"
proof -
  have d: "distinct (delta_list (get_object_details pb))" by (simp add: delta_list_def)
  have s: "po_size (object_list (get_object_details pb) ! i) = po_size (object_list pb ! i)"
    if "i < nr_objects pb" for i
    using that by (simp add: get_object_details_def)
  have "set (delta_list (get_object_details pb)) =
     {i. i < nr_objects pb \<and> po_size (object_list pb ! i) \<ge> 50 \<and>
         \<not> po_no_try_delta (object_list (get_object_details pb) ! i)}"
    using s by (auto simp: delta_list_def not_less) (simp_all add: get_object_details_def)
  with d show ?thesis
    by (simp add: sorted_delta_list_def set_git__tsort distinct_git__tsort sorted_git__tsort)
qed


theorem sorted_delta_list_candidates_witness:
  "sorted_delta_list (get_object_details sort_registry) = [5, 4, 0, 3, 2, 6] \<and>
   distinct (sorted_delta_list (get_object_details sort_registry)) \<and>
   sorted_wrt (sorts_before (object_list (get_object_details sort_registry)))
     (sorted_delta_list (get_object_details sort_registry))"
proof -
  have "sorted_delta_list (get_object_details sort_registry) = [5, 4, 0, 3, 2, 6]"
    by code_simp
  with sorted_delta_list_candidates[of sort_registry] show ?thesis by simp
qed

section \<open>Properties of the write-order planner\<close>

lemma add_to_write_order_inv:
  assumes "wo_inv st" and "po < length (fst st)"
  shows "wo_inv (add_to_write_order st po) \<and> length (fst (add_to_write_order st po)) = length (fst st)"
proof (cases "po_filled (fst st ! po)")
  case True
  with assms show ?thesis by (simp add: add_to_write_order_def case_prod_beta)
next
  case False
  have a: "add_to_write_order st po = ((fst st)[po := (fst st ! po)\<lparr>po_filled := True\<rparr>], snd st @ [po])"
    using False by (simp add: add_to_write_order_def case_prod_beta)
  have "po \<notin> set (snd st)" using assms(1) False by (simp add: wo_inv_def)
  moreover have "{i. i < length (fst st) \<and> po_filled ((fst st)[po := (fst st ! po)\<lparr>po_filled := True\<rparr>] ! i)}
      = insert po {i. i < length (fst st) \<and> po_filled (fst st ! i)}"
    using assms(2) by (auto simp: nth_list_update)
  ultimately show ?thesis using assms(1) unfolding a by (simp add: wo_inv_def)
qed

lemma add_siblings_inv:
  "add_siblings fuel st s = Inr st' \<Longrightarrow> wo_inv st \<Longrightarrow>
   wo_inv st' \<and> length (fst st') = length (fst st)"
proof (induction fuel arbitrary: st s)
  case 0
  then show ?case by simp
next
  case (Suc fuel)
  show ?case
  proof (cases s)
    case None
    with Suc.prems show ?thesis by simp
  next
    case (Some p)
    with Suc.prems have p: "p < length (fst st)"
      and r: "add_siblings fuel (add_to_write_order st p) (po_delta_sibling (fst st ! p)) = Inr st'"
      by (simp_all split: if_splits)
    from add_to_write_order_inv[OF Suc.prems(2) p] Suc.IH[OF r] show ?thesis by simp
  qed
qed

lemma add_descendants_inv:
  "add_descendants_to_write_order fuel st po add = Inr st' \<Longrightarrow> wo_inv st \<Longrightarrow>
   wo_inv st' \<and> length (fst st') = length (fst st)"
proof (induction fuel arbitrary: st po add)
  case 0
  then show ?case by simp
next
  case (Suc fuel)
  from Suc.prems(1) have po: "po < length (fst st)" by (simp split: if_splits)
  obtain st1 where st1: "(if add then add_siblings (Suc (length (fst st))) (add_to_write_order st po)
                        (po_delta_sibling (fst st ! po)) else Inr st) = Inr st1"
    using Suc.prems(1) po by (auto split: sum.splits if_splits)
  have i1: "wo_inv st1 \<and> length (fst st1) = length (fst st)"
  proof (cases add)
    case True
    with st1 have "add_siblings (Suc (length (fst st))) (add_to_write_order st po)
                        (po_delta_sibling (fst st ! po)) = Inr st1" by simp
    from add_siblings_inv[OF this] add_to_write_order_inv[OF Suc.prems(2) po] show ?thesis by simp
  next
    case False
    with st1 Suc.prems(2) show ?thesis by simp
  qed
  from Suc.prems(1) po st1 have
    "(\<exists>p a. add_descendants_to_write_order fuel st1 p a = Inr st') \<or> st' = st1"
    by (auto simp del: add_siblings.simps climb_to_sibling.simps
        split: option.splits sum.splits if_splits)
  then show ?case
  proof
    assume "\<exists>p a. add_descendants_to_write_order fuel st1 p a = Inr st'"
    then obtain p a where "add_descendants_to_write_order fuel st1 p a = Inr st'" by blast
    from Suc.IH[OF this] i1 show ?thesis by simp
  next
    assume "st' = st1"
    with i1 show ?thesis by simp
  qed
qed

lemma add_family_inv:
  assumes a: "add_family_to_write_order st po = Inr st'" and w: "wo_inv st"
  shows "wo_inv st' \<and> length (fst st') = length (fst st)"
proof (cases "find_root (Suc (length (fst st))) (fst st) po")
  case (Inl e)
  with a show ?thesis
    by (simp add: add_family_to_write_order_def del: find_root.simps)
next
  case (Inr root)
  with a have "add_descendants_to_write_order (2 * length (fst st) + 2) st root True = Inr st'"
    by (simp add: add_family_to_write_order_def
          del: find_root.simps add_descendants_to_write_order.simps)
  from add_descendants_inv[OF this w] show ?thesis .
qed

lemma fold_inv:
  assumes "\<And>i st. i \<in> set xs \<Longrightarrow> P st \<Longrightarrow> P (f i st)" and "P st"
  shows "P (fold f xs st)"
  using assms by (induction xs arbitrary: st) simp_all

lemma fold_err_inv:
  assumes "fold_err f xs st = Inr st'"
    and "\<And>i s s'. i \<in> set xs \<Longrightarrow> P s \<Longrightarrow> f i s = Inr s' \<Longrightarrow> P s'" and "P st"
  shows "P st'"
  using assms
proof (induction xs arbitrary: st)
  case Nil
  then show ?case by simp
next
  case (Cons x xs)
  from Cons.prems(1) obtain s1 where s1: "f x st = Inr s1" and r: "fold_err f xs s1 = Inr st'"
    by (auto split: sum.splits)
  have s1P: "P s1" using Cons.prems(2)[of x st s1] Cons.prems(3) s1 by simp
  show ?case
  proof (rule Cons.IH[OF r])
    show "P s1" by (rule s1P)
  next
    fix i s s'
    assume "i \<in> set xs" and "P s" and "f i s = Inr s'"
    then show "P s'" using Cons.prems(2)[of i s s'] by simp
  qed
qed

lemma map_update_same: "f y = f (xs ! i) \<Longrightarrow> map f (xs[i := y]) = map f xs"
  by (induction xs arbitrary: i) (auto split: nat.splits)

lemma link_delta_filled:
  "link_delta i objs = Inr objs' \<Longrightarrow> map po_filled objs' = map po_filled objs"
  by (auto simp: link_delta_def Let_def map_update_same split: option.splits if_splits)

lemma cb_tag_foreach_filled:
  "map po_filled (cb_tag_foreach pb oid objs) = map po_filled objs"
  by (auto simp: cb_tag_foreach_def map_update_same split: option.splits)

lemma unfilledD: "unfilled n objs \<Longrightarrow> length objs = n \<and> (\<forall>j<n. \<not> po_filled (objs ! j))"
proof -
  assume u: "unfilled n objs"
  then have l: "length objs = n" unfolding unfilled_def by (metis length_map length_replicate)
  have "\<not> po_filled (objs ! j)" if "j < n" for j
  proof -
    have "map po_filled objs ! j = False" using u that by (simp add: unfilled_def)
    then show ?thesis using that l by simp
  qed
  with l show ?thesis by simp
qed

lemma planned_add: "planned n st \<Longrightarrow> i < n \<Longrightarrow> planned n (add_to_write_order st i)"
  using add_to_write_order_inv[of st i] by (simp add: planned_def)

lemma distinct_full:
  assumes "distinct wo" and "set wo \<subseteq> {0..<n}" and "length wo = n"
  shows "set wo = {0..<n}"
proof -
  have "card (set wo) = n" using assms(1,3) by (simp add: distinct_card)
  then show ?thesis using assms(2) by (intro card_subset_eq) simp_all
qed

lemma planned_family:
  assumes "planned n s" and "(if \<not> po_filled (fst s ! i) then add_family_to_write_order s i else Inr s) = Inr s'"
  shows "planned n s'"
proof (cases "po_filled (fst s ! i)")
  case True
  with assms show ?thesis by simp
next
  case False
  with assms(2) have "add_family_to_write_order s i = Inr s'" by simp
  from add_family_inv[OF this] assms(1) show ?thesis by (simp add: planned_def)
qed

lemma unfilled_link:
  assumes "unfilled n s" and "link_delta i s = Inr s'"
  shows "unfilled n s'"
  using assms(1) link_delta_filled[OF assms(2)] by (simp add: unfilled_def)

lemma plan_forest_unfilled:
  assumes "plan_forest env pb = Inr objs3"
  shows "unfilled (nr_objects pb) objs3"
proof -
  let ?n = "nr_objects pb"
  obtain objs2 where
    o2: "fold_err link_delta (rev [0..<?n]) (reset_planner_flags (object_list pb)) = Inr objs2"
    using assms unfolding plan_forest_def
    by (cases "fold_err link_delta (rev [0..<?n]) (reset_planner_flags (object_list pb))") simp_all
  obtain tags where tg: "git_tag_foreach env = Some tags"
    using assms o2 unfolding plan_forest_def by (cases "git_tag_foreach env") simp_all
  have o3: "objs3 = fold (cb_tag_foreach pb) tags objs2"
    using assms o2 tg unfolding plan_forest_def by simp
  have u1: "unfilled ?n (reset_planner_flags (object_list pb))"
    by (simp add: unfilled_def reset_planner_flags_def comp_def map_replicate_const)
  have u2: "unfilled ?n objs2"
  proof (rule fold_err_inv[where P = "unfilled ?n", OF o2 _ u1])
    fix i s s'
    assume "unfilled ?n s" and "link_delta i s = Inr s'"
    then show "unfilled ?n s'" by (rule unfilled_link)
  qed
  show ?thesis unfolding o3
  proof (rule fold_inv[where P = "unfilled ?n", OF _ u2])
    fix i st
    assume "unfilled ?n st"
    then show "unfilled ?n (cb_tag_foreach pb i st)"
      by (simp add: unfilled_def cb_tag_foreach_filled)
  qed
qed

lemma plan_order_planned:
  assumes "plan_order objs = Inr st" and "unfilled n objs"
  shows "planned n st"
proof -
  have n: "length objs = n" using unfilledD[OF assms(2)] by simp
  let ?lu = "last_untagged objs"
  let ?st4 = "fold (\<lambda>i st. add_to_write_order st i) [0..<?lu] (objs, [])"
  let ?st5 = "fold (\<lambda>i st. if po_tagged (fst st ! i) then add_to_write_order st i else st) [?lu..<length objs] ?st4"
  let ?st6 = "fold (\<lambda>i st. if po_type (fst st ! i) \<noteq> GIT_OBJ_COMMIT \<and> po_type (fst st ! i) \<noteq> GIT_OBJ_TAG
                          then st else add_to_write_order st i) [?lu..<length objs] ?st5"
  let ?st7 = "fold (\<lambda>i st. if po_type (fst st ! i) \<noteq> GIT_OBJ_TREE then st else add_to_write_order st i)
                [?lu..<length objs] ?st6"
  have o8: "fold_err (\<lambda>i st. if \<not> po_filled (fst st ! i) then add_family_to_write_order st i else Inr st)
           [?lu..<length objs] ?st7 = Inr st"
    using assms(1) unfolding plan_order_def .
  have lu: "?lu \<le> n" unfolding last_untagged_def n[symmetric]
    using length_takeWhile_le[of _ "[0..<length objs]"] by simp
  have p3: "planned n (objs, [])" using unfilledD[OF assms(2)] by (simp add: planned_def wo_inv_def)
  have p4: "planned n ?st4"
  proof (rule fold_inv[where P = "planned n", OF _ p3])
    fix i st assume "i \<in> set [0..<?lu]" and "planned n st"
    then show "planned n (add_to_write_order st i)" using lu by (intro planned_add) simp_all
  qed
  have p5: "planned n ?st5"
  proof (rule fold_inv[where P = "planned n", OF _ p4])
    fix i st assume "i \<in> set [?lu..<length objs]" and "planned n st"
    then show "planned n (if po_tagged (fst st ! i) then add_to_write_order st i else st)"
      using n planned_add[of n st i] by simp
  qed
  have p6: "planned n ?st6"
  proof (rule fold_inv[where P = "planned n", OF _ p5])
    fix i st assume "i \<in> set [?lu..<length objs]" and "planned n st"
    then show "planned n (if po_type (fst st ! i) \<noteq> GIT_OBJ_COMMIT \<and> po_type (fst st ! i) \<noteq> GIT_OBJ_TAG
                          then st else add_to_write_order st i)"
      using n planned_add[of n st i] by simp
  qed
  have p7: "planned n ?st7"
  proof (rule fold_inv[where P = "planned n", OF _ p6])
    fix i st assume "i \<in> set [?lu..<length objs]" and "planned n st"
    then show "planned n (if po_type (fst st ! i) \<noteq> GIT_OBJ_TREE then st else add_to_write_order st i)"
      using n planned_add[of n st i] by simp
  qed
  show ?thesis
  proof (rule fold_err_inv[where P = "planned n", OF o8 _ p7])
    fix i s s'
    assume "planned n s"
      and "(if \<not> po_filled (fst s ! i) then add_family_to_write_order s i else Inr s) = Inr s'"
    then show "planned n s'" by (rule planned_family)
  qed
qed

lemma compute_write_order_length:
  assumes "compute_write_order env pb = Inr (wo, pb')"
  shows "nr_objects pb' = nr_objects pb"
proof -
  obtain objs3 where o3: "plan_forest env pb = Inr objs3"
    using assms unfolding compute_write_order_def
    by (cases "plan_forest env pb") (simp_all split: if_splits)
  obtain objs8 wo8 where o8: "plan_order objs3 = Inr (objs8, wo8)"
    using assms o3 unfolding compute_write_order_def
    by (cases "plan_order objs3") (auto split: if_splits)
  have r: "pb' = pb\<lparr>object_list := objs8\<rparr>"
    using assms o3 o8 unfolding compute_write_order_def by (simp split: if_splits)
  have "planned (nr_objects pb) (objs8, wo8)"
    using plan_order_planned[OF o8 plan_forest_unfilled[OF o3]] by simp
  then have "length objs8 = nr_objects pb" by (simp add: planned_def)
  with r show ?thesis by simp
qed

text \<open>
  C3 (as amended).  When \<open>compute_write_order\<close> succeeds on a registry of \<open>N\<close> entries,
  the write order lists each of the \<open>N\<close> entries exactly once: it has \<open>N\<close> elements, none
  repeated, and they are the positions \<open>0 .. N - 1\<close> of the registry.
\<close>

theorem compute_write_order_permutation:
  assumes "compute_write_order env pb = Inr (wo, pb')"
  shows "distinct wo \<and> set wo = {0..<nr_objects pb} \<and> length wo = nr_objects pb \<and>
         nr_objects pb' = nr_objects pb"
proof -
  let ?n = "nr_objects pb"
  obtain objs3 where o3: "plan_forest env pb = Inr objs3"
    using assms unfolding compute_write_order_def
    by (cases "plan_forest env pb") (simp_all split: if_splits)
  obtain objs8 wo8 where o8: "plan_order objs3 = Inr (objs8, wo8)"
    using assms o3 unfolding compute_write_order_def
    by (cases "plan_order objs3") (auto split: if_splits)
  have r: "wo8 = wo \<and> length wo = ?n \<and> pb' = pb\<lparr>object_list := objs8\<rparr>"
    using assms o3 o8 unfolding compute_write_order_def by (simp split: if_splits)
  have pl: "planned ?n (objs8, wo)"
    using plan_order_planned[OF o8 plan_forest_unfilled[OF o3]] r by simp
  have d: "distinct wo" using pl by (simp add: planned_def wo_inv_def)
  have l8: "length objs8 = ?n" using pl by (simp add: planned_def)
  have "set wo = {i. i < length objs8 \<and> po_filled (objs8 ! i)}"
    using pl by (simp add: planned_def wo_inv_def)
  then have sub: "set wo \<subseteq> {0..<?n}" unfolding l8 by (simp add: subset_iff)
  have len: "length wo = ?n" using r by simp
  have "nr_objects pb' = ?n" using r l8 by simp
  with d len distinct_full[OF d sub len] show ?thesis by simp
qed


theorem compute_write_order_permutation_witness:
  "(case delta_session_order of
      Inr (wo, pb') \<Rightarrow> distinct wo \<and> set wo = {0..<2} \<and> length wo = 2
    | Inl e \<Rightarrow> False)"
proof -
  have 1: "\<not> isl delta_session" by code_simp
  have 2: "\<not> isl delta_session_order" by code_simp
  have 3: "(case delta_session of Inr pb \<Rightarrow> nr_objects pb | Inl e \<Rightarrow> 0) = 2" by code_simp
  obtain pb where pb: "delta_session = Inr pb"
  proof (cases delta_session)
    case (Inl e)
    have "isl delta_session" unfolding Inl by simp
    with 1 show ?thesis by contradiction
  next
    case (Inr pb)
    with that show ?thesis by blast
  qed
  obtain wo pb' where wo: "delta_session_order = Inr (wo, pb')"
  proof (cases delta_session_order)
    case (Inl e)
    have "isl delta_session_order" unfolding Inl by simp
    with 2 show ?thesis by contradiction
  next
    case (Inr r)
    with that[of "fst r" "snd r"] show ?thesis by simp
  qed
  have "compute_write_order delta_env pb = Inr (wo, pb')"
    using wo unfolding delta_session_order_def pb by simp
  from compute_write_order_permutation[OF this] 3 show ?thesis unfolding pb wo by simp
qed

text \<open>
  The claim as stated fails on its second half.  In the session of the worked example
  the entry 0 is a delta of the entry 1, and the planner, which emits the untagged
  entries in insertion order, puts it first: the write order is \<open>[0, 1]\<close>.
\<close>

theorem compute_write_order_delta_first_counterexample:
  "(case delta_session_order of
      Inr (wo, pb') \<Rightarrow> wo = [0, 1] \<and> po_delta (object_list pb' ! 0) = Some 1
    | Inl e \<Rightarrow> False)"
  by code_simp

section \<open>What the delta search leaves unchanged\<close>

lemma same_frame_refl: "same_frame pb pb"
  by (simp add: same_frame_def)

lemma same_frame_length:
  assumes "same_frame pb pb'"
  shows "nr_objects pb' = nr_objects pb"
proof -
  have "length (map static_part (object_list pb')) = length (map static_part (object_list pb))"
    using assms by (simp add: same_frame_def)
  then show ?thesis by simp
qed

lemma same_frame_trans:
  assumes ab: "same_frame a b" and bc: "same_frame b c"
  shows "same_frame a c"
proof -
  have l: "nr_objects b = nr_objects a" using ab by (rule same_frame_length)
  have "\<forall>i<nr_objects a. po_delta_dangling (object_list c ! i) \<longrightarrow>
                           po_delta_dangling (object_list a ! i)"
  proof (intro allI impI)
    fix i assume i: "i < nr_objects a" and d: "po_delta_dangling (object_list c ! i)"
    from bc i l d have "po_delta_dangling (object_list b ! i)" by (simp add: same_frame_def)
    with ab i show "po_delta_dangling (object_list a ! i)" by (simp add: same_frame_def)
  qed
  with ab bc show ?thesis by (simp add: same_frame_def)
qed

lemma same_frame_update:
  assumes "ctx pb' = ctx pb" and "big_file_threshold pb' = big_file_threshold pb"
    and o: "object_list pb' = (object_list pb)[k := y]"
    and st: "static_part y = static_part (object_list pb ! k)"
    and d: "po_delta_dangling y \<longrightarrow> po_delta_dangling (object_list pb ! k)"
  shows "same_frame pb pb'"
proof -
  have "\<forall>i<nr_objects pb. po_delta_dangling (object_list pb' ! i) \<longrightarrow>
                            po_delta_dangling (object_list pb ! i)"
  proof (intro allI impI)
    fix i assume i: "i < nr_objects pb" and di: "po_delta_dangling (object_list pb' ! i)"
    show "po_delta_dangling (object_list pb ! i)"
    proof (cases "i = k")
      case True
      with i o di have "po_delta_dangling y" by simp
      with d True show ?thesis by simp
    next
      case False
      with o di show ?thesis by simp
    qed
  qed
  moreover have "map static_part (object_list pb') = map static_part (object_list pb)"
    unfolding o using st by (rule map_update_same)
  ultimately show ?thesis using assms(1,2) by (simp add: same_frame_def)
qed

lemma static_part_update [simp]:
  "static_part (po\<lparr>po_delta := a\<rparr>) = static_part po"
  "static_part (po\<lparr>po_delta_data := b\<rparr>) = static_part po"
  "static_part (po\<lparr>po_delta_size := c\<rparr>) = static_part po"
  "static_part (po\<lparr>po_z_delta_size := d\<rparr>) = static_part po"
  "static_part (po\<lparr>po_delta_dangling := e\<rparr>) = static_part po"
  "static_part (po\<lparr>po_delta_data_freed := f\<rparr>) = static_part po"
  by (simp_all add: static_part_def)

lemma try_delta_accept_frame:
  assumes "try_delta_accept env pb array t s to so delta_buf mem = Inr (pb', a', m', r)"
  shows "same_frame pb pb'"
proof -
  from assms have
    "pb' = pb \<or>
     (ctx pb' = ctx pb \<and> big_file_threshold pb' = big_file_threshold pb \<and>
      (\<exists>y. object_list pb' = (object_list pb)[to := y] \<and>
           static_part y = static_part (object_list pb ! to) \<and> \<not> po_delta_dangling y))"
    by (auto simp: try_delta_accept_def Let_def split: if_splits)
  then show ?thesis by (auto simp: same_frame_refl intro: same_frame_update)
qed

lemma try_delta_search_frame:
  assumes "try_delta_search env pb array t s to so max_size mem = Inr (pb', a', m', r)"
  shows "same_frame pb pb'"
proof -
  from assms have "pb' = pb \<or> (\<exists>a3 db m3. try_delta_accept env pb a3 t s to so db m3 = Inr (pb', a', m', r))"
    by (auto simp: try_delta_search_def Let_def split: sum.splits option.splits if_splits prod.splits)
  then show ?thesis by (auto simp: same_frame_refl dest: try_delta_accept_frame)
qed

lemma try_delta_frame:
  assumes "try_delta env pb array t s max_depth mem = Inr (pb', a', m', r)"
  shows "same_frame pb pb'"
proof -
  from assms have "pb' = pb \<or> (\<exists>to so ms. try_delta_search env pb array t s to so ms mem = Inr (pb', a', m', r))"
    by (auto simp: try_delta_def Let_def split: option.splits if_splits)
  then show ?thesis by (auto simp: same_frame_refl dest: try_delta_search_frame)
qed

lemma find_deltas_inner_frame:
  "find_deltas_inner env window idx max_depth j (pb, array, mem, bb) = Inr (pb', a', m', bb') \<Longrightarrow>
   same_frame pb pb'"
proof (induction j arbitrary: pb array mem bb)
  case 0
  then show ?case by (simp add: same_frame_refl)
next
  case (Suc j)
  let ?o = "window_slot window idx (Suc j)"
  show ?case
  proof (cases "u_object (array ! ?o) = None")
    case True
    from True Suc.prems show ?thesis by (simp add: same_frame_refl)
  next
    case False
    show ?thesis
    proof (cases "try_delta env pb array idx ?o max_depth mem")
      case (Inl e)
      from False Inl Suc.prems show ?thesis by (simp del: not_None_eq)
    next
      case (Inr res)
      obtain pb1 a1 m1 ret where res: "res = (pb1, a1, m1, ret)" by (cases res) auto
      have t: "try_delta env pb array idx ?o max_depth mem = Inr (pb1, a1, m1, ret)"
        using Inr res by simp
      have f1: "same_frame pb pb1" using t by (rule try_delta_frame)
      show ?thesis
      proof (cases "ret < 0")
        case True
        from False t True Suc.prems have "pb' = pb1" by (simp del: not_None_eq)
        with f1 show ?thesis by simp
      next
        case ge: False
        from False t ge Suc.prems have
          "find_deltas_inner env window idx max_depth j
             (pb1, a1, m1, if ret > 0 then int ?o else bb) = Inr (pb', a', m', bb')"
          by (simp del: not_None_eq)
        from f1 Suc.IH[OF this] show ?thesis by (rule same_frame_trans)
      qed
    qed
  qed
qed

lemma compress_cached_frame:
  assumes "compress_cached env pb po = Inr pb'"
  shows "same_frame pb pb'"
proof -
  from assms have
    "pb' = pb \<or>
     (ctx pb' = ctx pb \<and> big_file_threshold pb' = big_file_threshold pb \<and>
      (\<exists>y. object_list pb' = (object_list pb)[po := y] \<and>
           static_part y = static_part (object_list pb ! po) \<and>
           po_delta_dangling y = po_delta_dangling (object_list pb ! po)))"
    by (auto simp: compress_cached_def split: option.splits if_splits)
  then show ?thesis by (auto simp: same_frame_refl intro: same_frame_update)
qed

lemma find_deltas_next_frame:
  "find_deltas_next window (pb, a, i, c, m) = (pb', a', i', c', m') \<Longrightarrow> pb' = pb"
  by (simp add: find_deltas_next_def)

lemma find_deltas_search_frame:
  assumes "find_deltas_search env window max_depth po (pb, array, idx, count, mem) = Inr (pb', a', i', c', m')"
  shows "same_frame pb pb'"
proof -
  from assms obtain pb1 a1 m1 bb pb2 where
    i: "find_deltas_inner env window idx max_depth (window - 1) (pb, array, mem, - 1) = Inr (pb1, a1, m1, bb)"
    and c: "compress_cached env pb1 po = Inr pb2" and e: "pb' = pb2"
    by (auto simp: find_deltas_search_def find_deltas_next_def split: sum.splits if_splits)
  from find_deltas_inner_frame[OF i] compress_cached_frame[OF c] e show ?thesis
    by (auto intro: same_frame_trans)
qed

lemma find_deltas_step_frame:
  assumes "find_deltas_step env window depth po (pb, array, idx, count, mem) = Inr (pb', a', i', c', m')"
  shows "same_frame pb pb'"
proof -
  from assms have "pb' = pb \<or> (\<exists>md a2 c2 m2. find_deltas_search env window md po (pb, a2, idx, c2, m2) = Inr (pb', a', i', c', m'))"
    by (auto simp: find_deltas_step_def find_deltas_next_def Let_def
        simp del: check_delta_limit.simps evict_window.simps
        split: sum.splits if_splits prod.splits)
  then show ?thesis by (auto simp: same_frame_refl dest: find_deltas_search_frame)
qed

lemma find_deltas_loop_frame:
  "find_deltas_loop env window depth list (pb, array, idx, count, mem) = Inr (pb', a', i', c', m') \<Longrightarrow>
   same_frame pb pb'"
proof (induction list arbitrary: pb array idx count mem)
  case Nil
  then show ?case by (simp add: same_frame_refl)
next
  case (Cons po list)
  from Cons.prems obtain st1 where
    s: "find_deltas_step env window depth po (pb, array, idx, count, mem) = Inr st1" and
    l: "find_deltas_loop env window depth list st1 = Inr (pb', a', i', c', m')"
    by (auto split: sum.splits)
  obtain pb1 a1 i1 c1 m1 where st1: "st1 = (pb1, a1, i1, c1, m1)" by (cases st1) auto
  from find_deltas_step_frame[OF s[unfolded st1]] Cons.IH[OF l[unfolded st1]]
  show ?case by (rule same_frame_trans)
qed

lemma find_deltas_frame: "find_deltas env pb list window depth = Inr pb' \<Longrightarrow> same_frame pb pb'"
  by (auto simp: find_deltas_def split: if_splits sum.splits dest: find_deltas_loop_frame)

lemma get_object_details_frame:
  "ctx (get_object_details pb) = ctx pb \<and> nr_objects (get_object_details pb) = nr_objects pb"
  by (simp add: get_object_details_def)

lemma prepare_pack_search_run:
  assumes "prepare_pack_search env pb = Inr pb'"
  shows "pb' = (get_object_details pb)\<lparr>pb_done := True\<rparr> \<or>
     (\<exists>pb2. find_deltas env (get_object_details pb) (sorted_delta_list (get_object_details pb))
              (unat (GIT_PACK_WINDOW + 1)) GIT_PACK_DEPTH = Inr pb2 \<and>
            pb' = pb2\<lparr>pb_done := True\<rparr>)"
proof -
  let ?pb1 = "get_object_details pb"
  let ?r = "find_deltas env ?pb1 (sorted_delta_list ?pb1) (unat (GIT_PACK_WINDOW + 1)) GIT_PACK_DEPTH"
  have s: "(if \<not> git__malloc env (nr_objects ?pb1) then Inl ENOMEM
            else if length (delta_list ?pb1) > 1
            then (case ?r of Inl e \<Rightarrow> Inl e | Inr pb2 \<Rightarrow> Inr (pb2\<lparr>pb_done := True\<rparr>))
            else Inr (?pb1\<lparr>pb_done := True\<rparr>)) = Inr pb'"
    using assms unfolding prepare_pack_search_def Let_def ll_find_deltas_def .
  have m: "git__malloc env (nr_objects ?pb1)"
  proof (rule ccontr)
    assume "\<not> git__malloc env (nr_objects ?pb1)"
    with s show False by simp
  qed
  show ?thesis
  proof (cases "length (delta_list ?pb1) > 1")
    case True
    from s m True
    have c: "(case ?r of Inl e \<Rightarrow> Inl e | Inr pb2 \<Rightarrow> Inr (pb2\<lparr>pb_done := True\<rparr>)) = Inr pb'"
      by simp
    show ?thesis
    proof (cases ?r)
      case (Inl e)
      from c show ?thesis unfolding Inl by simp
    next
      case (Inr pb2)
      from c have "pb' = pb2\<lparr>pb_done := True\<rparr>" unfolding Inr by simp
      with Inr show ?thesis by blast
    qed
  next
    case False
    from s m False have "Inr (?pb1\<lparr>pb_done := True\<rparr>) = Inr pb'"
      by simp
    then show ?thesis by simp
  qed
qed

lemma prepare_pack_frame:
  assumes "prepare_pack env pb = Inr pb'"
  shows "ctx pb' = ctx pb \<and> nr_objects pb' = nr_objects pb"
proof (cases "nr_objects pb = 0 \<or> pb_done pb")
  case True
  with assms show ?thesis by (simp add: prepare_pack_def)
next
  case False
  with assms have s: "prepare_pack_search env pb = Inr pb'" by (simp add: prepare_pack_def)
  let ?pb1 = "get_object_details pb"
  let ?l = "sorted_delta_list ?pb1" and ?w = "unat (GIT_PACK_WINDOW + 1)"
  from prepare_pack_search_run[OF s] show ?thesis
  proof
    assume "pb' = ?pb1\<lparr>pb_done := True\<rparr>"
    then show ?thesis using get_object_details_frame[of pb] by simp
  next
    assume "\<exists>pb2. find_deltas env ?pb1 ?l ?w GIT_PACK_DEPTH = Inr pb2 \<and> pb' = pb2\<lparr>pb_done := True\<rparr>"
    then obtain pb2 where f: "find_deltas env ?pb1 ?l ?w GIT_PACK_DEPTH = Inr pb2"
      and e: "pb' = pb2\<lparr>pb_done := True\<rparr>"
      by blast
    have c: "ctx pb2 = ctx ?pb1" using find_deltas_frame[OF f] by (simp add: same_frame_def)
    have n: "nr_objects pb2 = nr_objects ?pb1" using find_deltas_frame[OF f] by (rule same_frame_length)
    from c n e get_object_details_frame[of pb] show ?thesis by simp
  qed
qed


section \<open>Properties of prepare_pack\<close>

text \<open>
  C9.  A session that \<open>prepare_pack\<close> has returned successfully is returned unchanged,
  with success, by a further \<open>prepare_pack\<close> (whatever the collaborators would answer:
  the test on \<open>nr_objects\<close> and \<open>done\<close> comes first).  A successful insert of an
  identifier that is not yet registered adds one entry and clears \<open>done\<close>, so that the
  next \<open>prepare_pack\<close> does not short-circuit but runs the delta search
  (\<open>prepare_pack_search\<close>).
\<close>

theorem prepare_pack_idempotent:
  "(prepare_pack env pb = Inr pb' \<longrightarrow> prepare_pack env' pb' = Inr pb') \<and>
   (object_ix pb oid = None \<and> git_packbuilder_insert env pb oid name = Inr pb' \<longrightarrow>
      \<not> pb_done pb' \<and> nr_objects pb' = Suc (nr_objects pb) \<and>
      prepare_pack env' pb' = prepare_pack_search env' pb')"
proof (rule conjI; rule impI)
  assume a: "prepare_pack env pb = Inr pb'"
  show "prepare_pack env' pb' = Inr pb'"
  proof (cases "nr_objects pb = 0 \<or> pb_done pb")
    case True
    with a have "pb' = pb" by (simp add: prepare_pack_def)
    with True show ?thesis by (simp add: prepare_pack_def)
  next
    case False
    with a have "prepare_pack_search env pb = Inr pb'" by (simp add: prepare_pack_def)
    then have "pb_done pb'"
      by (auto simp: prepare_pack_search_def Let_def split: if_splits sum.splits)
    then show ?thesis by (simp add: prepare_pack_def)
  qed
next
  assume "object_ix pb oid = None \<and> git_packbuilder_insert env pb oid name = Inr pb'"
  then have "\<not> pb_done pb' \<and> nr_objects pb' = Suc (nr_objects pb)"
    by (auto simp: git_packbuilder_insert_def Let_def rehash_def split: if_splits option.splits)
  then show "\<not> pb_done pb' \<and> nr_objects pb' = Suc (nr_objects pb) \<and>
      prepare_pack env' pb' = prepare_pack_search env' pb'"
    by (simp add: prepare_pack_def)
qed


theorem prepare_pack_idempotent_witness:
  "(case delta_session of
      Inr pb \<Rightarrow> prepare_pack delta_env pb = Inr pb \<and> pb_done pb
    | Inl e \<Rightarrow> False) \<and>
   (case git_packbuilder_insert delta_env zeroed_packbuilder 1 None of
      Inr pb \<Rightarrow> \<not> pb_done pb \<and> nr_objects pb = 1 \<and>
                prepare_pack delta_env pb = prepare_pack_search delta_env pb
    | Inl e \<Rightarrow> False)"
proof -
  have 1: "\<not> isl delta_inserted" by code_simp
  have 2: "\<not> isl delta_session" by code_simp
  have 3: "(case delta_session of Inr pb \<Rightarrow> pb_done pb | Inl e \<Rightarrow> False)" by code_simp
  have 4: "\<not> isl (git_packbuilder_insert delta_env zeroed_packbuilder 1 None)" by code_simp
  have 5: "object_ix zeroed_packbuilder 1 = None" by (simp add: zeroed_packbuilder_def)
  obtain pbi where pbi: "delta_inserted = Inr pbi"
  proof (cases delta_inserted)
    case (Inl e)
    have "isl delta_inserted" unfolding Inl by simp
    with 1 show ?thesis by contradiction
  next
    case (Inr pb)
    with that show ?thesis by blast
  qed
  obtain pb where pb: "delta_session = Inr pb"
  proof (cases delta_session)
    case (Inl e)
    have "isl delta_session" unfolding Inl by simp
    with 2 show ?thesis by contradiction
  next
    case (Inr pb)
    with that show ?thesis by blast
  qed
  obtain pb1 where pb1: "git_packbuilder_insert delta_env zeroed_packbuilder 1 None = Inr pb1"
  proof (cases "git_packbuilder_insert delta_env zeroed_packbuilder 1 None")
    case (Inl e)
    have "isl (git_packbuilder_insert delta_env zeroed_packbuilder 1 None)" unfolding Inl by simp
    with 4 show ?thesis by contradiction
  next
    case (Inr pb)
    with that show ?thesis by blast
  qed
  have p: "prepare_pack delta_env pbi = Inr pb" using pb unfolding delta_session_def pbi by simp
  have a: "prepare_pack delta_env pb = Inr pb"
    using prepare_pack_idempotent[where env = delta_env and pb = pbi and pb' = pb and env' = delta_env] p by blast
  have b: "\<not> pb_done pb1 \<and> nr_objects pb1 = Suc (nr_objects zeroed_packbuilder) \<and>
      prepare_pack delta_env pb1 = prepare_pack_search delta_env pb1"
    using prepare_pack_idempotent[where env = delta_env and pb = zeroed_packbuilder and pb' = pb1
        and env' = delta_env and oid = 1 and name = None] 5 pb1
    by blast
  have n0: "nr_objects zeroed_packbuilder = 0" by (simp add: zeroed_packbuilder_def)
  from a b 3 n0 show ?thesis unfolding pb pb1 by simp
qed

section \<open>Properties of the pack writer\<close>

lemma fed_trans: "fed bl pb bl1 pb1 \<Longrightarrow> fed bl1 pb1 bl2 pb2 \<Longrightarrow> fed bl pb bl2 pb2"
  unfolding fed_def by auto

lemma fed_objs: "fed bl (pb\<lparr>object_list := objs\<rparr>) bl' pb' \<Longrightarrow> length objs = nr_objects pb \<Longrightarrow> fed bl pb bl' pb'"
  unfolding fed_def by simp

lemma write_object_fed:
  assumes "write_object env bl pb po = Inr (bl', pb')"
  shows "fed bl pb bl' pb'"
proof -
  from assms obtain head payload where
    "fst bl' = fst bl @ head @ payload" and "ctx pb' = ctx pb @ head @ payload"
    and "nr_objects pb' = nr_objects pb"
    by (auto simp: write_object_def Let_def split: sum.splits prod.splits if_splits)
  then show ?thesis unfolding fed_def by auto
qed

lemma write_one_fed:
  "write_one env bl pb po status = Inr (bl', pb', status') \<Longrightarrow> fed bl pb bl' pb'"
proof (induction env bl pb po status arbitrary: bl' pb' status' rule: write_one.induct)
  case (1 env bl pb po status)
  note eq = "1.prems"[unfolded write_one.simps[of env bl pb po status]]
  show ?case
  proof (cases "po < nr_objects pb \<and> \<not> po_recursing (object_list pb ! po) \<and> \<not> po_written (object_list pb ! po)")
    case False
    with eq have "bl' = bl \<and> pb' = pb" by (auto split: if_splits)
    then show ?thesis by (simp add: fed_def)
  next
    case True
    show ?thesis
    proof (cases "po_delta (object_list pb ! po)")
      case None
      with True eq obtain pbw where
        "write_object env bl pbw po = Inr (bl', pb')" and "ctx pbw = ctx pb" and "nr_objects pbw = nr_objects pb"
        by (auto split: sum.splits)
      with write_object_fed[of env bl pbw po bl' pb'] show ?thesis by (simp add: fed_def)
    next
      case (Some d)
      let ?pbr = "pb\<lparr>object_list := (object_list pb)[po := (object_list pb ! po)\<lparr>po_recursing := True\<rparr>]\<rparr>"
      from True Some eq have nd: "\<not> po_delta_dangling (object_list pb ! po)"
        by (auto split: if_splits)
      from True Some eq nd obtain bl1 pb1 st1 where
        r: "write_one env bl ?pbr d status = Inr (bl1, pb1, st1)"
        by (auto split: sum.splits)
      from True Some have ih: "fed bl ?pbr bl1 pb1"
        using "1.IH"[OF _ _ _ Some nd r] by simp
      from True Some eq nd r obtain pbw where
        w: "write_object env bl1 pbw po = Inr (bl', pb')" and "ctx pbw = ctx pb1" and "nr_objects pbw = nr_objects pb1"
        by (auto simp: Let_def split: sum.splits)
      with write_object_fed[OF w] have "fed bl1 pb1 bl' pb'" by (simp add: fed_def)
      with ih have "fed bl ?pbr bl' pb'" by (rule fed_trans)
      then show ?thesis by (simp add: fed_def)
    qed
  qed
qed


lemma write_pack_entry_streamed:
  assumes "write_pack_entry env po st = Inr st'" and "streamed out0 ctx0 n st"
  shows "streamed out0 ctx0 n st'"
proof -
  obtain out log pb status where st: "st = ((out, log), pb, status)" by (cases st) auto
  from assms(1) obtain buf log' pb' status' where
    w: "write_one env ([], log) pb po status = Inr ((buf, log'), pb', status')" and
    st': "st' = ((out @ buf, log'), pb', status')"
    unfolding st write_pack_entry_def by (auto split: sum.splits if_splits)
  from write_one_fed[OF w] have "ctx pb' = ctx pb @ buf \<and> nr_objects pb' = nr_objects pb"
    by (simp add: fed_def)
  with assms(2) show ?thesis unfolding st st' streamed_def by auto
qed

lemma compute_write_order_ctx:
  "compute_write_order env pb = Inr (wo, pb') \<Longrightarrow> ctx pb' = ctx pb"
  by (auto simp: compute_write_order_def split: if_splits sum.splits prod.splits)

lemma pack_header_bytes:
  "pack_header pb = [0x50, 0x41, 0x43, 0x4B, 0, 0, 0, 2] @ htonl (of_nat (nr_objects pb))"
  by (simp add: pack_header_def htonl_def PACK_SIGNATURE_def PACK_VERSION_def)

lemma length_oid_raw: "length (oid_raw oid) = 20"
  by (simp add: oid_raw_def)

lemma write_pack_stream:
  assumes "write_pack env pb status0 out0 = Inr (out, log, pb')"
  shows "\<exists>body. out = out0 @ pack_header pb @ body @
                    oid_raw (git_hash env (ctx pb @ pack_header pb @ body))"
proof -
  obtain wo pb1 where c: "compute_write_order env pb = Inr (wo, pb1)"
    using assms unfolding write_pack_def by (cases "compute_write_order env pb") auto
  have n1: "nr_objects pb1 = nr_objects pb" using c by (rule compute_write_order_length)
  have c1: "ctx pb1 = ctx pb" using c by (rule compute_write_order_ctx)
  have h: "pack_header pb1 = pack_header pb" by (simp add: pack_header_def n1)
  let ?st0 = "((out0 @ pack_header pb1, []),
               pb1\<lparr>ctx := ctx pb1 @ pack_header pb1,
                   nr_remaining := of_nat (nr_objects pb1), nr_written := 0\<rparr>, status0)"
  obtain out2 log2 pb2 status2 where
    f: "fold_err (write_pack_entry env) wo ?st0 = Inr ((out2, log2), pb2, status2)"
    using assms c unfolding write_pack_def
    by (cases "fold_err (write_pack_entry env) wo ?st0") (auto split: if_splits)
  have r: "out = out2 @ oid_raw (git_hash env (ctx pb2))"
    using assms c f unfolding write_pack_def by (simp add: Let_def split: if_splits)
  have s0: "streamed (out0 @ pack_header pb) (ctx pb @ pack_header pb) (nr_objects pb) ?st0"
    by (simp add: streamed_def h c1 n1)
  have "streamed (out0 @ pack_header pb) (ctx pb @ pack_header pb) (nr_objects pb)
          ((out2, log2), pb2, status2)"
  proof (rule fold_err_inv[where P = "streamed (out0 @ pack_header pb) (ctx pb @ pack_header pb) (nr_objects pb)",
          OF f _ s0])
    fix i s s'
    assume "streamed (out0 @ pack_header pb) (ctx pb @ pack_header pb) (nr_objects pb) s"
      and "write_pack_entry env i s = Inr s'"
    then show "streamed (out0 @ pack_header pb) (ctx pb @ pack_header pb) (nr_objects pb) s'"
      using write_pack_entry_streamed by blast
  qed
  then obtain body where "out2 = out0 @ pack_header pb @ body" and "ctx pb2 = ctx pb @ pack_header pb @ body"
    by (auto simp: streamed_def)
  with r show ?thesis by auto
qed

text \<open>
  When \<open>git_packbuilder_send\<close>, \<open>git_packbuilder_write_buf\<close> or
  \<open>git_packbuilder_write\<close> succeeds, what it has delivered to its sink, after the bytes
  \<open>out0\<close> the sink held before, is the 12-byte header (the four bytes "PACK", the version 2
  and the number of registered entries, both as 32-bit big-endian words), a body, and
  the 20 raw bytes of the digest of what the hash context of the session has been fed
  since \<open>git_packbuilder_new\<close> created it: what it had been fed before the build, then the
  header and the body.
\<close>

lemma build_stream:
  assumes "git_packbuilder_send env pb status0 out0 = Inr (out, log, pb') \<or>
           git_packbuilder_write_buf env out0 pb status0 = Inr (out, log, pb') \<or>
           (git_packbuilder_write env pb status0 = Inr (out, log, pb') \<and> out0 = [])"
  shows "\<exists>body. out = out0 @ pack_header pb @ body @
                    oid_raw (git_hash env (ctx pb @ pack_header pb @ body)) \<and>
                pack_header pb = [0x50, 0x41, 0x43, 0x4B, 0, 0, 0, 2] @ htonl (of_nat (nr_objects pb)) \<and>
                length (pack_header pb) = 12 \<and>
                length (oid_raw (git_hash env (ctx pb @ pack_header pb @ body))) = 20"
proof -
  from assms obtain pb1 where p: "prepare_pack env pb = Inr pb1"
    and w: "write_pack env pb1 status0 out0 = Inr (out, log, pb')"
    by (auto simp: git_packbuilder_send_def git_packbuilder_write_buf_def git_packbuilder_write_def
        write_pack_file_def split: sum.splits if_splits)
  from prepare_pack_frame[OF p] have "ctx pb1 = ctx pb" and "pack_header pb1 = pack_header pb"
    by (simp_all add: pack_header_def)
  with write_pack_stream[OF w] show ?thesis
    by (auto simp: pack_header_bytes length_oid_raw htonl_def)
qed


text \<open>
  On a session that has not built before the context has been fed nothing, and the
  digest is that of every byte of the stream before it.
\<close>

lemma build_stream_first_build:
  "(case delta_build of
      Inr (out, log, pb') \<Rightarrow>
        take 12 out = [0x50, 0x41, 0x43, 0x4B, 0, 0, 0, 2, 0, 0, 0, 2] \<and>
        drop (length out - 20) out = oid_raw (git_hash delta_env (take (length out - 20) out))
    | Inl e \<Rightarrow> False)"
proof -
  have 1: "\<not> isl delta_inserted" by code_simp
  have 2: "\<not> isl delta_build" by code_simp
  have 3: "(case delta_inserted of Inr pb \<Rightarrow> ctx pb = [] \<and> nr_objects pb = 2 | Inl e \<Rightarrow> False)"
    by code_simp
  obtain pbi where pbi: "delta_inserted = Inr pbi"
  proof (cases delta_inserted)
    case (Inl e)
    have "isl delta_inserted" unfolding Inl by simp
    with 1 show ?thesis by contradiction
  next
    case (Inr pb)
    with that show ?thesis by blast
  qed
  obtain out log pb' where b: "delta_build = Inr (out, log, pb')"
  proof (cases delta_build)
    case (Inl e)
    have "isl delta_build" unfolding Inl by simp
    with 2 show ?thesis by contradiction
  next
    case (Inr r)
    with that[of "fst r" "fst (snd r)" "snd (snd r)"] show ?thesis by simp
  qed
  have c: "ctx pbi = [] \<and> nr_objects pbi = 2" using 3 unfolding pbi by simp
  have w: "git_packbuilder_write_buf delta_env [] pbi WRITE_ONE_WRITTEN = Inr (out, log, pb')"
    using b unfolding delta_build_def pbi by simp
  from build_stream[where env = delta_env and pb = pbi and ?status0.0 = WRITE_ONE_WRITTEN
      and ?out0.0 = "[]" and out = out and log = log and pb' = pb'] w
  obtain body where
    o: "out = pack_header pbi @ body @ oid_raw (git_hash delta_env (ctx pbi @ pack_header pbi @ body))"
    and h: "pack_header pbi = [0x50, 0x41, 0x43, 0x4B, 0, 0, 0, 2] @ htonl (of_nat (nr_objects pbi))"
    by auto
  have h2: "pack_header pbi = [0x50, 0x41, 0x43, 0x4B, 0, 0, 0, 2, 0, 0, 0, 2]"
    using h c by (simp add: htonl_def)
  let ?d = "oid_raw (git_hash delta_env (pack_header pbi @ body))"
  have o2: "out = (pack_header pbi @ body) @ ?d" using o c by simp
  have l: "length out - 20 = length (pack_header pbi @ body)"
    unfolding o2 by (simp add: length_oid_raw)
  have t: "take (length out - 20) out = pack_header pbi @ body" unfolding l by (subst o2) simp
  have d: "drop (length out - 20) out = ?d" unfolding l by (subst o2) simp
  have "take 12 out = pack_header pbi" unfolding o2 by (simp add: h2)
  with t d h2 show ?thesis unfolding b by simp
qed


text \<open>
  C1.  The claim is that every successful build ends its stream with the digest of every
  preceding byte of that stream.  \<open>git_packbuilder_new\<close> creates the hash context and
  nothing re-initialises it: \<open>write_pack\<close> feeds it the header and the records and calls
  \<open>git_hash_final\<close> on it, build after build.  On the session \<open>new\<close>, \<open>insert 2\<close>,
  \<open>write_buf\<close>, \<open>write_buf\<close> the first stream has 134 bytes; the second build succeeds
  with a stream of 32 bytes, the header announcing one entry and the digest, with no
  record (the entry is \<open>written\<close>).  That digest is the one of the 114 bytes fed during
  the first build followed by the second header, and not the digest of the 12 bytes
  that precede it in the second stream.
\<close>

theorem rebuild_trailer:
  "(case (reuse_first_build, rebuild) of
      (Inr (out1, log1, pb1), Inr (out2, log2, pb2)) \<Rightarrow>
        length out1 = 134 \<and> length out2 = 32 \<and> log2 = [] \<and>
        take 12 out2 = [0x50, 0x41, 0x43, 0x4B, 0, 0, 0, 2, 0, 0, 0, 1] \<and>
        drop 12 out2 = oid_raw (git_hash delta_env (take 114 out1 @ take 12 out2)) \<and>
        drop 12 out2 \<noteq> oid_raw (git_hash delta_env (take 12 out2))
    | _ \<Rightarrow> False)"
  by code_simp

section \<open>The records of a stream and their bases\<close>

text \<open>
  C2.  The claim is that every \<open>REF_DELTA\<close> record of a successfully written stream
  names as its base a record emitted earlier in the same stream.  \<open>write_one\<close> skips an
  entry whose \<open>written\<close> flag is set, and nothing clears that flag: neither
  \<open>compute_write_order\<close> (which resets \<open>tagged\<close>, \<open>filled\<close>, \<open>delta_child\<close> and
  \<open>delta_sibling\<close>) nor \<open>write_pack\<close>.  On the session \<open>new\<close>, \<open>insert 2\<close>, \<open>write_buf\<close>,
  \<open>insert 1\<close>, \<open>write_buf\<close> the second build succeeds, its header announces two entries,
  and its only record is the \<open>REF_DELTA\<close> record of the entry 1 against the base 2: the
  entry 2, written by the first build, is skipped, so the base is nowhere in the second
  stream.
\<close>

theorem reuse_second_build_log:
  "(case reuse_second_build of
      Inr (out, log, pb) \<Rightarrow>
        log = [\<lparr>rec_id = 1, rec_type = GIT_OBJ_REF_DELTA, rec_base = Some 2\<rparr>] \<and>
        take 12 out = [0x50, 0x41, 0x43, 0x4B, 0, 0, 0, 2, 0, 0, 0, 2] \<and>
        map po_written (object_list pb) = [True, True]
    | Inl e \<Rightarrow> False)"
  by code_simp

text \<open>The first build of that session writes the entry 2 in full and sets its flag.\<close>

lemma reuse_first_build_log:
  "(case reuse_first_build of
      Inr (out, log, pb) \<Rightarrow>
        log = [\<lparr>rec_id = 2, rec_type = GIT_OBJ_BLOB, rec_base = None\<rparr>] \<and>
        map po_written (object_list pb) = [True]
    | Inl e \<Rightarrow> False)"
  by code_simp

section \<open>The depth of the delta chains\<close>

lemma chain_unique: "chain dl d i \<Longrightarrow> chain dl e i \<Longrightarrow> d = e"
proof (induction d arbitrary: e i)
  case 0
  then show ?case by (cases e) auto
next
  case (Suc d)
  then show ?case by (cases e) (auto split: option.splits)
qed

lemma chain_length: "chain dl d i \<Longrightarrow> i < length dl"
  by (cases d) auto

lemma chain_path:
  assumes nd: "\<forall>j<length objs. \<not> po_delta_dangling (objs ! j)"
  shows "chain (map po_delta objs) d i \<Longrightarrow> d < fuel \<Longrightarrow>
   \<exists>p. delta_chain fuel objs i = Inr p \<and> length p = Suc d \<and> hd p = i \<and>
       last p < length objs \<and> po_delta (objs ! last p) = None \<and> distinct p \<and>
       (\<forall>x\<in>set p. \<exists>e\<le>d. chain (map po_delta objs) e x)"
proof (induction d arbitrary: fuel i)
  case 0
  then obtain f where "fuel = Suc f" by (cases fuel) auto
  with 0 show ?case by auto
next
  case (Suc d)
  let ?dl = "map po_delta objs"
  from Suc.prems obtain b where i: "i < length objs" and b: "po_delta (objs ! i) = Some b"
    and c: "chain ?dl d b"
    by (auto split: option.splits)
  from Suc.prems obtain f where f: "fuel = Suc f" and df: "d < f" by (cases fuel) auto
  from Suc.IH[OF c df] obtain p where
    p: "delta_chain f objs b = Inr p" "length p = Suc d" "hd p = b" "last p < length objs"
       "po_delta (objs ! last p) = None" "distinct p" "\<forall>x\<in>set p. \<exists>e\<le>d. chain ?dl e x"
    by blast
  have ne: "p \<noteq> []" using p(2) by auto
  have ndi: "\<not> po_delta_dangling (objs ! i)" using nd i by simp
  have "i \<notin> set p"
  proof
    assume "i \<in> set p"
    with p(7) obtain e where e: "e \<le> d" "chain ?dl e i" by blast
    from chain_unique[OF e(2) Suc.prems(1)] e(1) show False by simp
  qed
  moreover have "\<forall>x\<in>set (i # p). \<exists>e\<le>Suc d. chain ?dl e x"
  proof
    fix x assume "x \<in> set (i # p)"
    then consider "x = i" | "x \<in> set p" by auto
    then show "\<exists>e\<le>Suc d. chain ?dl e x"
    proof cases
      case 1
      with Suc.prems(1) show ?thesis by blast
    next
      case 2
      with p(7) obtain e where "e \<le> d" "chain ?dl e x" by blast
      then show ?thesis by (intro exI[of _ e]) simp
    qed
  qed
  moreover have "delta_chain fuel objs i = Inr (i # p)" using i b f ndi p(1) by simp
  ultimately show ?case using p ne by simp
qed

lemma chain_local:
  assumes closed: "\<forall>i\<in>S. \<forall>b. dl ! i = Some b \<longrightarrow> b \<in> S" and "to \<notin> S"
  shows "i \<in> S \<Longrightarrow> chain dl d i \<Longrightarrow> chain (dl[to := x]) d i"
proof (induction d arbitrary: i)
  case 0
  then have "i \<noteq> to" using assms(2) by auto
  with 0 show ?case by simp
next
  case (Suc d)
  from Suc.prems obtain b where i: "i < length dl" and b: "dl ! i = Some b" and c: "chain dl d b"
    by (auto split: option.splits)
  from closed Suc.prems(1) b have "b \<in> S" by blast
  from Suc.IH[OF this c] have "chain (dl[to := x]) d b" .
  moreover have "i \<noteq> to" using Suc.prems(1) assms(2) by auto
  ultimately show ?case using i b by simp
qed

lemma chain_append: "chain dl d i \<Longrightarrow> chain (dl @ ys) d i"
proof (induction d arbitrary: i)
  case 0
  then show ?case by (auto simp: nth_append)
next
  case (Suc d)
  then show ?case by (auto simp: nth_append split: option.splits)
qed

lemma settled_update:
  assumes "settled D S dl" and "to \<notin> S"
  shows "settled D S (dl[to := x])"
  unfolding settled_def
proof
  fix i assume i: "i \<in> S"
  from assms(1) have closed: "\<forall>i\<in>S. \<forall>b. dl ! i = Some b \<longrightarrow> b \<in> S" by (auto simp: settled_def)
  from assms(1) i obtain d where d: "d \<le> D" "chain dl d i" by (auto simp: settled_def)
  from chain_local[OF closed assms(2) i d(2)] d(1) have "\<exists>d\<le>D. chain (dl[to := x]) d i" by blast
  moreover have "i \<noteq> to" using i assms(2) by auto
  then have "dl[to := x] ! i = dl ! i" by simp
  ultimately show "(\<exists>d\<le>D. chain (dl[to := x]) d i) \<and> (\<forall>b. dl[to := x] ! i = Some b \<longrightarrow> b \<in> S)"
    using closed i by auto
qed

lemma slot_ok_update:
  assumes "settled D S dl" and "to \<notin> S" and "slot_ok S dl s"
  shows "slot_ok S (dl[to := x]) s"
proof (cases "fst s")
  case None
  then show ?thesis by (simp add: slot_ok_def)
next
  case (Some po)
  from assms(1) have closed: "\<forall>i\<in>S. \<forall>b. dl ! i = Some b \<longrightarrow> b \<in> S" by (auto simp: settled_def)
  from assms(3) Some have "po \<in> S" "chain dl (unat (snd s)) po" by (auto simp: slot_ok_def)
  with chain_local[OF closed assms(2)] Some show ?thesis by (simp add: slot_ok_def)
qed

lemma slot_ok_mono: "slot_ok S dl s \<Longrightarrow> slot_ok (insert po S) dl s"
  by (auto simp: slot_ok_def split: option.splits)

lemma settled_insert:
  assumes "settled D S dl" and "\<exists>d\<le>D. chain dl d po" and "\<forall>b. dl ! po = Some b \<longrightarrow> b \<in> S"
  shows "settled D (insert po S) dl"
  using assms unfolding settled_def by auto

section \<open>What try_delta does to the links and to the window\<close>

lemma slots_nth: "k < length array \<Longrightarrow> slots array ! k = (u_object (array ! k), u_depth (array ! k))"
  by (simp add: slots_def)

lemma length_slots [simp]: "length (slots array) = length array"
  by (simp add: slots_def)

lemma load_unpacked_slots:
  "load_unpacked env pb array i po m = Inr (a', m') \<Longrightarrow> slots a' = slots array"
  by (auto simp: load_unpacked_def slots_def map_update_same split: if_splits option.splits)

lemma try_delta_accept_effect:
  assumes "try_delta_accept env pb array t s to so db mem = Inr (pb', a', m', r)"
  shows "(r = 0 \<and> delta_links pb' = delta_links pb \<and> slots a' = slots array) \<or>
         (r = 1 \<and> delta_links pb' = (delta_links pb)[to := Some so] \<and>
          slots a' = (slots array)[t := (u_object (array ! t), u_depth (array ! s) + 1)])"
  using assms
  by (auto simp: try_delta_accept_def Let_def delta_links_def slots_def map_update split: if_splits)

lemma try_delta_search_effect:
  assumes "try_delta_search env pb array t s to so max_size mem = Inr (pb', a', m', r)"
    and t: "t < length array" and s: "s < length array"
  shows "(r = 0 \<and> delta_links pb' = delta_links pb \<and> slots a' = slots array) \<or>
         (r = 1 \<and> delta_links pb' = (delta_links pb)[to := Some so] \<and>
          slots a' = (slots array)[t := (fst (slots array ! t), snd (slots array ! s) + 1)])"
proof -
  from assms(1) obtain a1 m1 where l1: "load_unpacked env pb array t to mem = Inr (a1, m1)"
    by (auto simp: try_delta_search_def split: sum.splits)
  from assms(1) l1 obtain a2 m2 where l2: "load_unpacked env pb a1 s so m1 = Inr (a2, m2)"
    by (auto simp: try_delta_search_def split: sum.splits)
  have s2: "slots a2 = slots array"
    using load_unpacked_slots[OF l1] load_unpacked_slots[OF l2] by simp
  define a3 where "a3 = (if u_index (a2 ! s) = None
                         then a2[s := (a2 ! s)\<lparr>u_index := Some (the (u_data (a2 ! s)))\<rparr>] else a2)"
  have s3: "slots a3 = slots array"
    unfolding a3_def using s2 by (auto simp: slots_def map_update_same)
  have len3: "length a3 = length array" using s3 length_slots[of a3] length_slots[of array] by simp
  from assms(1) l1 l2 have
    "(r = 0 \<and> pb' = pb \<and> (a' = a2 \<or> a' = a3)) \<or>
     (\<exists>db m3. try_delta_accept env pb a3 t s to so db m3 = Inr (pb', a', m', r))"
    unfolding try_delta_search_def a3_def
    by (auto simp: Let_def split: option.splits if_splits)
  then show ?thesis
  proof
    assume "r = 0 \<and> pb' = pb \<and> (a' = a2 \<or> a' = a3)"
    with s2 s3 show ?thesis by auto
  next
    assume "\<exists>db m3. try_delta_accept env pb a3 t s to so db m3 = Inr (pb', a', m', r)"
    then obtain db m3 where "try_delta_accept env pb a3 t s to so db m3 = Inr (pb', a', m', r)"
      by blast
    from try_delta_accept_effect[OF this]
    have "(r = 0 \<and> delta_links pb' = delta_links pb \<and> slots a' = slots a3) \<or>
          (r = 1 \<and> delta_links pb' = (delta_links pb)[to := Some so] \<and>
           slots a' = (slots a3)[t := (u_object (a3 ! t), u_depth (a3 ! s) + 1)])" .
    moreover have "u_object (a3 ! t) = fst (slots array ! t)"
      using slots_nth[of t a3] t len3 s3 by simp
    moreover have "u_depth (a3 ! s) = snd (slots array ! s)"
      using slots_nth[of s a3] s len3 s3 by simp
    ultimately show ?thesis using s3 by simp
  qed
qed

lemma try_delta_effect:
  assumes "try_delta env pb array t s md mem = Inr (pb', a', m', r)"
    and t: "t < length array" and s: "s < length array"
  shows "\<exists>to so. fst (slots array ! t) = Some to \<and> fst (slots array ! s) = Some so \<and>
           to < nr_objects pb \<and> so < nr_objects pb \<and>
           ((r \<le> 0 \<and> delta_links pb' = delta_links pb \<and> slots a' = slots array) \<or>
            (r = 1 \<and> snd (slots array ! s) < md \<and>
             delta_links pb' = (delta_links pb)[to := Some so] \<and>
             slots a' = (slots array)[t := (Some to, snd (slots array ! s) + 1)]))"
proof -
  from assms(1) obtain to so where o: "u_object (array ! t) = Some to" "u_object (array ! s) = Some so"
    by (auto simp: try_delta_def split: option.splits)
  have ft: "fst (slots array ! t) = Some to" and fs: "fst (slots array ! s) = Some so"
    and ds: "snd (slots array ! s) = u_depth (array ! s)"
    using o t s by (simp_all add: slots_nth)
  from assms(1) o have b: "to < nr_objects pb" "so < nr_objects pb"
    by (auto simp: try_delta_def split: if_splits)
  from assms(1) o b have
    "(r \<le> 0 \<and> pb' = pb \<and> a' = array) \<or>
     (\<not> md \<le> u_depth (array ! s) \<and>
      (\<exists>ms. try_delta_search env pb array t s to so ms mem = Inr (pb', a', m', r)))"
    by (auto simp: try_delta_def Let_def split: if_splits)
  then show ?thesis
  proof
    assume "r \<le> 0 \<and> pb' = pb \<and> a' = array"
    with ft fs b show ?thesis by auto
  next
    assume a: "\<not> md \<le> u_depth (array ! s) \<and>
      (\<exists>ms. try_delta_search env pb array t s to so ms mem = Inr (pb', a', m', r))"
    then obtain ms where "try_delta_search env pb array t s to so ms mem = Inr (pb', a', m', r)"
      by blast
    from try_delta_search_effect[OF this t s] a ft fs ds b show ?thesis by auto
  qed
qed

section \<open>The inner loop of find_deltas\<close>

lemma unat_depth_Suc: "(ds :: u32) < md \<Longrightarrow> unat (ds + 1) = Suc (unat ds)"
  by unat_arith

lemma inner_inv_step:
  assumes inv: "inner_inv D S po idx dl0 (delta_links pb) (slots array) bb"
    and td: "try_delta env pb array idx s md mem = Inr (pb', a', m', r)"
    and po: "po \<notin> S" and idx: "idx < length array" and s: "s < length array"
    and ne: "s \<noteq> idx" and md: "unat md \<le> D"
  shows "inner_inv D S po idx dl0 (delta_links pb') (slots a') (if r > 0 then int s else bb) \<and>
         length a' = length array"
proof -
  let ?dl = "delta_links pb" and ?sl = "slots array"
  from try_delta_effect[OF td idx s] obtain to so where
    ft: "fst (?sl ! idx) = Some to" and fs: "fst (?sl ! s) = Some so" and
    lt: "to < nr_objects pb" and
    e: "(r \<le> 0 \<and> delta_links pb' = ?dl \<and> slots a' = ?sl) \<or>
        (r = 1 \<and> snd (?sl ! s) < md \<and> delta_links pb' = ?dl[to := Some so] \<and>
         slots a' = ?sl[idx := (Some to, snd (?sl ! s) + 1)])"
    by blast
  from inv have i1: "length ?dl = length dl0" and i2: "settled D S ?dl"
    and i3: "\<forall>i. i \<notin> insert po S \<longrightarrow> ?dl ! i = dl0 ! i"
    and i4: "\<forall>k<length ?sl. k \<noteq> idx \<longrightarrow> slot_ok S ?dl (?sl ! k)"
    and i5: "fst (?sl ! idx) = None \<or> fst (?sl ! idx) = Some po"
    by (simp_all add: inner_inv_def)
  from i5 ft have to: "to = po" by simp
  from i4 s ne have "slot_ok S ?dl (?sl ! s)" by simp
  with fs have so: "so \<in> S" and cs: "chain ?dl (unat (snd (?sl ! s))) so"
    by (simp_all add: slot_ok_def)
  from i2 have closed: "\<forall>i\<in>S. \<forall>b. ?dl ! i = Some b \<longrightarrow> b \<in> S" by (auto simp: settled_def)
  from e show ?thesis
  proof
    assume a: "r \<le> 0 \<and> delta_links pb' = ?dl \<and> slots a' = ?sl"
    then have "length a' = length array" using length_slots[of a'] length_slots[of array] by simp
    with a inv show ?thesis by simp
  next
    assume a: "r = 1 \<and> snd (?sl ! s) < md \<and> delta_links pb' = ?dl[to := Some so] \<and>
         slots a' = ?sl[idx := (Some to, snd (?sl ! s) + 1)]"
    let ?dl' = "?dl[po := Some so]" and ?sl' = "?sl[idx := (Some po, snd (?sl ! s) + 1)]"
    from a to have r: "r = 1" and lt_md: "snd (?sl ! s) < md"
      and dl': "delta_links pb' = ?dl'" and sl': "slots a' = ?sl'" by simp_all
    have len: "length a' = length array"
      using sl' length_slots[of a'] length_slots[of array] by simp
    have pol: "po < length ?dl" using lt to by (simp add: delta_links_def)
    have idxl: "idx < length ?sl" using idx by simp
    have c1: "length ?dl' = length dl0" using i1 by simp
    have c2: "settled D S ?dl'" using i2 po by (rule settled_update)
    have c3: "\<forall>i. i \<notin> insert po S \<longrightarrow> ?dl' ! i = dl0 ! i" using i3 by simp
    have c4: "\<forall>k<length ?sl'. k \<noteq> idx \<longrightarrow> slot_ok S ?dl' (?sl' ! k)"
    proof (intro allI impI)
      fix k assume "k < length ?sl'" "k \<noteq> idx"
      with i4 have "slot_ok S ?dl (?sl ! k)" by simp
      from slot_ok_update[OF i2 po this] \<open>k \<noteq> idx\<close> show "slot_ok S ?dl' (?sl' ! k)" by simp
    qed
    have c5: "fst (?sl' ! idx) = Some po" using idxl by simp
    have c6: "?dl' ! po = Some so" using pol by simp
    have c7: "chain ?dl' (unat (snd (?sl ! s))) so" using closed po so cs by (rule chain_local)
    have "unat (snd (?sl ! s)) < unat md" using lt_md by (simp add: word_less_nat_alt)
    with md have c8: "Suc (unat (snd (?sl ! s))) \<le> D" by simp
    have c9: "unat (snd (?sl' ! idx)) = Suc (unat (snd (?sl ! s)))"
      using idxl unat_depth_Suc[OF lt_md] by simp
    have c10: "\<exists>b d. ?dl' ! po = Some b \<and> b \<in> S \<and> chain ?dl' d b \<and> Suc d \<le> D \<and>
                      unat (snd (?sl' ! idx)) = Suc d"
      using c6 so c7 c8 c9 by blast
    have "inner_inv D S po idx dl0 ?dl' ?sl' (int s)"
      unfolding inner_inv_def
    proof (intro conjI)
      show "length ?dl' = length dl0" by (rule c1)
      show "settled D S ?dl'" by (rule c2)
      show "\<forall>i. i \<notin> insert po S \<longrightarrow> ?dl' ! i = dl0 ! i" by (rule c3)
      show "\<forall>k<length ?sl'. k \<noteq> idx \<longrightarrow> slot_ok S ?dl' (?sl' ! k)" by (rule c4)
      show "fst (?sl' ! idx) = None \<or> fst (?sl' ! idx) = Some po" using c5 by (rule disjI2)
      show "int s < 0 \<longrightarrow> snd (?sl' ! idx) = 0" by simp
      show "0 \<le> int s \<longrightarrow> (\<exists>b d. ?dl' ! po = Some b \<and> b \<in> S \<and> chain ?dl' d b \<and> Suc d \<le> D \<and>
                      unat (snd (?sl' ! idx)) = Suc d)"
        using c10 by (rule impI)
    qed
    with r dl' sl' len show ?thesis by simp
  qed
qed

lemma window_slot_bounds:
  assumes "idx < window" and "0 < j" and "j < window"
  shows "window_slot window idx j < window \<and> window_slot window idx j \<noteq> idx"
  using assms by (auto simp: window_slot_def)

lemma find_deltas_inner_inv:
  "find_deltas_inner env window idx md j (pb, array, mem, bb) = Inr (pb', a', m', bb') \<Longrightarrow>
   inner_inv D S po idx dl0 (delta_links pb) (slots array) bb \<Longrightarrow>
   po \<notin> S \<Longrightarrow> idx < window \<Longrightarrow> length array = window \<Longrightarrow> j < window \<Longrightarrow> unat md \<le> D \<Longrightarrow>
   inner_inv D S po idx dl0 (delta_links pb') (slots a') bb' \<and> length a' = window"
proof (induction j arbitrary: pb array mem bb)
  case 0
  then show ?case by simp
next
  case (Suc j)
  let ?o = "window_slot window idx (Suc j)"
  from window_slot_bounds[of idx window "Suc j"] Suc.prems
  have ob: "?o < length array" "?o \<noteq> idx" by simp_all
  have ib: "idx < length array" using Suc.prems by simp
  show ?case
  proof (cases "u_object (array ! ?o) = None")
    case True
    from True Suc.prems(1) have "pb' = pb \<and> a' = array \<and> bb' = bb" by simp
    with Suc.prems show ?thesis by simp
  next
    case False
    show ?thesis
    proof (cases "try_delta env pb array idx ?o md mem")
      case (Inl e)
      from False Inl Suc.prems(1) show ?thesis by (simp del: not_None_eq)
    next
      case (Inr res)
      obtain pb1 a1 m1 ret where res: "res = (pb1, a1, m1, ret)" by (cases res) auto
      have t: "try_delta env pb array idx ?o md mem = Inr (pb1, a1, m1, ret)"
        using Inr res by simp
      from inner_inv_step[OF Suc.prems(2) t Suc.prems(3) ib ob(1) ob(2) Suc.prems(7)]
      have st: "inner_inv D S po idx dl0 (delta_links pb1) (slots a1)
                  (if ret > 0 then int ?o else bb)" and l1: "length a1 = window"
        using Suc.prems(5) by simp_all
      show ?thesis
      proof (cases "ret < 0")
        case True
        from False t True Suc.prems(1) have "pb' = pb1 \<and> a' = a1 \<and> bb' = bb"
          by (simp del: not_None_eq)
        with st l1 True show ?thesis by simp
      next
        case ge: False
        from False t ge Suc.prems(1) have
          "find_deltas_inner env window idx md j
             (pb1, a1, m1, if ret > 0 then int ?o else bb) = Inr (pb', a', m', bb')"
          by (simp del: not_None_eq)
        from Suc.IH[OF this st Suc.prems(3) Suc.prems(4) l1 _ Suc.prems(7)] Suc.prems(6)
        show ?thesis by simp
      qed
    qed
  qed
qed

section \<open>One round of find_deltas\<close>

lemma compress_cached_links:
  "compress_cached env pb po = Inr pb' \<Longrightarrow> delta_links pb' = delta_links pb"
  by (auto simp: compress_cached_def delta_links_def map_update_same split: option.splits if_splits)

lemma rotate_window_subset:
  "rotate_window window array dst dist = (a', d') \<Longrightarrow> length array = window \<Longrightarrow> 0 < window \<Longrightarrow>
   length a' = window \<and> set a' \<subseteq> set array"
proof (induction dist arbitrary: array dst)
  case 0
  then show ?case by simp
next
  case (Suc dist)
  let ?a = "array[dst := array ! ((dst + 1) mod window)]"
  from Suc.prems have r: "rotate_window window ?a ((dst + 1) mod window) dist = (a', d')" by simp
  have "array ! ((dst + 1) mod window) \<in> set array" using Suc.prems by simp
  then have sub: "set ?a \<subseteq> set array"
    using set_update_subset_insert[of array dst "array ! ((dst + 1) mod window)"] by auto
  from Suc.IH[OF r] Suc.prems have "length a' = window \<and> set a' \<subseteq> set ?a" by simp
  with sub show ?case by blast
qed

lemma move_best_base_subset:
  assumes "move_best_base window idx bb array = Inr a'" and "length array = window"
  shows "0 \<le> bb \<and> length a' = window \<and> set a' \<subseteq> set array"
proof -
  from assms(1) have b: "0 \<le> bb" "nat bb < window"
    by (auto simp: move_best_base_def split: if_splits)
  obtain a1 d1 where r: "rotate_window window array (nat bb) ((window + idx - nat bb) mod window) = (a1, d1)"
    by (cases "rotate_window window array (nat bb) ((window + idx - nat bb) mod window)") auto
  from assms(1) b r have a': "a' = a1[d1 := array ! nat bb]"
    by (simp add: move_best_base_def Let_def)
  from rotate_window_subset[OF r assms(2)] b have 1: "length a1 = window" "set a1 \<subseteq> set array" by simp_all
  have "array ! nat bb \<in> set array" using b assms(2) by simp
  then have "set (a1[d1 := array ! nat bb]) \<subseteq> set array"
    using set_update_subset_insert[of a1 d1 "array ! nat bb"] 1(2) by auto
  with a' 1 b show ?thesis by simp
qed

lemma evict_window_slots:
  "evict_window env pb window idx array mem count = (a', m', c') \<Longrightarrow>
   length a' = length array \<and>
   (\<forall>k<length array. slots a' ! k = slots array ! k \<or> slots a' ! k = (None, 0))"
proof (induction count arbitrary: array mem)
  case 0
  then show ?case by (simp add: evict_window.simps[of env pb window idx array mem 0] del: evict_window.simps)
next
  case (Suc count)
  show ?case
  proof (cases "window_memory_limit pb \<noteq> 0 \<and> mem > window_memory_limit pb \<and> Suc count > 1")
    case False
    with Suc.prems show ?thesis
      by (auto simp: evict_window.simps[of env pb window idx array mem "Suc count"]
          simp del: evict_window.simps split: if_splits)
  next
    case True
    let ?tail = "(idx + window - Suc count) mod window"
    let ?n = "fst (free_unpacked env pb (array ! ?tail))"
    let ?f = "snd (free_unpacked env pb (array ! ?tail))"
    from True Suc.prems have r: "evict_window env pb window idx (array[?tail := ?n]) (mem - ?f) count = (a', m', c')"
      by (simp add: evict_window.simps[of env pb window idx array mem "Suc count"] Let_def case_prod_beta
          del: evict_window.simps)
    from Suc.IH[OF r] have l: "length a' = length array" and
      s: "\<forall>k<length array. slots a' ! k = slots (array[?tail := ?n]) ! k \<or> slots a' ! k = (None, 0)"
      by simp_all
    have "\<forall>k<length array. slots (array[?tail := ?n]) ! k = slots array ! k \<or>
                            slots (array[?tail := ?n]) ! k = (None, 0)"
    proof (intro allI impI)
      fix k assume k: "k < length array"
      show "slots (array[?tail := ?n]) ! k = slots array ! k \<or>
            slots (array[?tail := ?n]) ! k = (None, 0)"
      proof (cases "k = ?tail")
        case True
        with k have "slots (array[?tail := ?n]) ! k = (None, 0)"
          by (simp add: slots_def free_unpacked_def)
        then show ?thesis by simp
      next
        case False
        with k have "slots (array[?tail := ?n]) ! k = slots array ! k"
          by (simp add: slots_def)
        then show ?thesis by simp
      qed
    qed
    with l s show ?thesis by metis
  qed
qed

lemma inner_inv_done:
  assumes J: "inner_inv D S po idx dl0 dl sl bb" and pol: "po < length dl" and il: "idx < length sl"
    and d: "dl ! po \<noteq> None \<longrightarrow> 0 \<le> bb"
  shows "window_inv D (insert po S) dl0 dl sl"
proof -
  from J have i1: "length dl = length dl0" and i2: "settled D S dl"
    and i3: "\<forall>i. i \<notin> insert po S \<longrightarrow> dl ! i = dl0 ! i"
    and i4: "\<forall>k<length sl. k \<noteq> idx \<longrightarrow> slot_ok S dl (sl ! k)"
    and i5: "fst (sl ! idx) = None \<or> fst (sl ! idx) = Some po"
    and i6: "bb < 0 \<longrightarrow> snd (sl ! idx) = 0"
    and i7: "0 \<le> bb \<longrightarrow> (\<exists>b d. dl ! po = Some b \<and> b \<in> S \<and> chain dl d b \<and> Suc d \<le> D \<and>
                            unat (snd (sl ! idx)) = Suc d)"
    by (simp_all add: inner_inv_def)
  have po_chain: "chain dl (unat (snd (sl ! idx))) po \<and> unat (snd (sl ! idx)) \<le> D \<and>
                  (\<forall>b. dl ! po = Some b \<longrightarrow> b \<in> S)"
  proof (cases "0 \<le> bb")
    case True
    with i7 obtain b d where "dl ! po = Some b" "b \<in> S" "chain dl d b" "Suc d \<le> D"
      "unat (snd (sl ! idx)) = Suc d" by blast
    with pol show ?thesis by simp
  next
    case False
    with d have "dl ! po = None" by auto
    moreover from False i6 have "snd (sl ! idx) = 0" by simp
    ultimately show ?thesis using pol by simp
  qed
  have s: "settled D (insert po S) dl"
    using i2 po_chain by (intro settled_insert) auto
  have w: "\<forall>s\<in>set sl. slot_ok (insert po S) dl s"
  proof
    fix s assume "s \<in> set sl"
    then obtain k where k: "k < length sl" "s = sl ! k" by (auto simp: in_set_conv_nth)
    show "slot_ok (insert po S) dl s"
    proof (cases "k = idx")
      case True
      with i5 k po_chain show ?thesis by (auto simp: slot_ok_def)
    next
      case False
      with i4 k have "slot_ok S dl s" by simp
      then show ?thesis by (rule slot_ok_mono)
    qed
  qed
  from i1 s i3 w show ?thesis by (simp add: window_inv_def)
qed

lemma window_inv_subset:
  "window_inv D S dl0 dl sl \<Longrightarrow> set sl' \<subseteq> set sl \<Longrightarrow> window_inv D S dl0 dl sl'"
  by (auto simp: window_inv_def)

lemma slots_subset: "set a' \<subseteq> set a \<Longrightarrow> set (slots a') \<subseteq> set (slots a)"
  by (auto simp: slots_def)

lemma find_deltas_next_idx:
  "find_deltas_next window (pb, a, idx, c, m) = (pb', a', i', c', m') \<Longrightarrow> 0 < window \<Longrightarrow>
   pb' = pb \<and> a' = a \<and> i' < window"
  by (auto simp: find_deltas_next_def split: if_splits)

lemma find_deltas_search_inv:
  assumes r: "find_deltas_search env window md po (pb, array, idx, count, mem) = Inr (pb', a', i', c', m')"
    and inv: "inner_inv D S po idx dl0 (delta_links pb) (slots array) (- 1)"
    and po: "po \<notin> S" and pol: "po < nr_objects pb" and idx: "idx < window"
    and len: "length array = window" and md0: "0 < md" and md: "unat md \<le> D"
  shows "window_inv D (insert po S) dl0 (delta_links pb') (slots a') \<and> i' < window \<and> length a' = window"
proof -
  from r obtain pb1 a1 m1 bb where
    i: "find_deltas_inner env window idx md (window - 1) (pb, array, mem, - 1) = Inr (pb1, a1, m1, bb)"
    by (auto simp: find_deltas_search_def split: sum.splits)
  from r i obtain pb2 where c: "compress_cached env pb1 po = Inr pb2"
    by (auto simp: find_deltas_search_def split: sum.splits)
  have w0: "0 < window" and w1: "window - 1 < window" using idx by simp_all
  from find_deltas_inner_inv[OF i inv po idx len w1 md]
  have J: "inner_inv D S po idx dl0 (delta_links pb1) (slots a1) bb" and l1: "length a1 = window"
    by simp_all
  have dl2: "delta_links pb2 = delta_links pb1" using c by (rule compress_cached_links)
  have ll: "length (delta_links pb1) = length (delta_links pb)"
    using J inv by (simp add: inner_inv_def)
  have pol1: "po < length (delta_links pb1)" using ll pol by (simp add: delta_links_def)
  have "length (delta_links pb2) = length (delta_links pb1)" using dl2 by simp
  then have pol2: "po < nr_objects pb2" using pol1 by (simp add: delta_links_def)
  have "delta_links pb2 ! po = po_delta (object_list pb2 ! po)"
    using pol2 by (simp add: delta_links_def)
  then have pd: "po_delta (object_list pb2 ! po) = delta_links pb1 ! po"
    using dl2 by simp
  have il: "idx < length (slots a1)" using idx l1 by simp
  have dep: "u_depth (a1 ! idx) = snd (slots a1 ! idx)" using idx l1 by (simp add: slots_nth)
  let ?d = "po_delta (object_list pb2 ! po) \<noteq> None"
  show ?thesis
  proof (cases "?d \<and> md \<le> u_depth (a1 ! idx)")
    case True
    with r i c have e: "pb' = pb2" "a' = a1" "i' = idx"
      by (simp_all add: find_deltas_search_def del: not_None_eq)
    have "0 \<le> bb"
    proof (rule ccontr)
      assume "\<not> 0 \<le> bb"
      with J have "snd (slots a1 ! idx) = 0" by (simp add: inner_inv_def)
      with True dep md0 show False by simp
    qed
    then have "delta_links pb1 ! po \<noteq> None \<longrightarrow> 0 \<le> bb" by simp
    from inner_inv_done[OF J pol1 il this] e dl2 idx l1 show ?thesis by simp
  next
    case F1: False
    show ?thesis
    proof (cases ?d)
      case True
      with F1 have nd: "\<not> md \<le> u_depth (a1 ! idx)" by simp
      from r i c True nd obtain a2 where
        m: "move_best_base window idx bb a1 = Inr a2" and
        e: "find_deltas_next window (pb2, a2, idx, count, m1) = (pb', a', i', c', m')"
        by (auto simp: find_deltas_search_def simp del: not_None_eq split: sum.splits)
      from move_best_base_subset[OF m l1] have b: "0 \<le> bb" "length a2 = window" "set a2 \<subseteq> set a1"
        by simp_all
      from b(1) have "delta_links pb1 ! po \<noteq> None \<longrightarrow> 0 \<le> bb" by simp
      from inner_inv_done[OF J pol1 il this]
      have "window_inv D (insert po S) dl0 (delta_links pb1) (slots a1)" .
      then have "window_inv D (insert po S) dl0 (delta_links pb1) (slots a2)"
        using slots_subset[OF b(3)] by (rule window_inv_subset)
      with find_deltas_next_idx[OF e w0] dl2 b(2) show ?thesis by simp
    next
      case False
      with r i c have e: "find_deltas_next window (pb2, a1, idx, count, m1) = (pb', a', i', c', m')"
        by (simp add: find_deltas_search_def del: not_None_eq)
      from False pd have "delta_links pb1 ! po \<noteq> None \<longrightarrow> 0 \<le> bb" by simp
      from inner_inv_done[OF J pol1 il this] find_deltas_next_idx[OF e w0] dl2 l1
      show ?thesis by simp
    qed
  qed
qed

lemma find_deltas_step_inv:
  assumes r: "find_deltas_step env window depth po (pb, array, idx, count, mem) = Inr (pb', a', i', c', m')"
    and inv: "window_inv D S dl0 (delta_links pb) (slots array)"
    and po: "po \<notin> S" and idx: "idx < window" and len: "length array = window"
    and d0: "0 < depth" and d: "unat depth \<le> D" and nc: "no_children pb"
  shows "window_inv D (insert po S) dl0 (delta_links pb') (slots a') \<and> i' < window \<and> length a' = window"
proof -
  have pol: "po < nr_objects pb"
  proof (rule ccontr)
    assume "\<not> po < nr_objects pb"
    with r show False by (simp add: find_deltas_step_def)
  qed
  with nc have ncp: "po_delta_child (object_list pb ! po) = None" by (simp add: no_children_def)
  let ?n = "fst (free_unpacked env pb (array ! idx))" and ?f = "snd (free_unpacked env pb (array ! idx))"
  let ?a1 = "array[idx := ?n\<lparr>u_object := Some po\<rparr>]"
  obtain a2 m2 c2 where ev: "evict_window env pb window idx ?a1 (mem - ?f) count = (a2, m2, c2)"
    by (cases "evict_window env pb window idx ?a1 (mem - ?f) count") auto
  from r pol ncp ev
  have s: "find_deltas_search env window depth po (pb, a2, idx, c2, m2) = Inr (pb', a', i', c', m')"
    by (simp add: find_deltas_step_def Let_def case_prod_beta
        del: evict_window.simps check_delta_limit.simps)
  let ?dl = "delta_links pb"
  have s1: "slots ?a1 = (slots array)[idx := (Some po, 0)]"
    by (simp add: slots_def map_update free_unpacked_def)
  from evict_window_slots[OF ev] have l2: "length a2 = window"
    and e2: "\<forall>k<window. slots a2 ! k = slots ?a1 ! k \<or> slots a2 ! k = (None, 0)"
    using len by simp_all
  from inv have i1: "length ?dl = length dl0" and i2: "settled D S ?dl"
    and i3: "\<forall>i. i \<notin> S \<longrightarrow> ?dl ! i = dl0 ! i"
    and i4: "\<forall>s\<in>set (slots array). slot_ok S ?dl s"
    by (simp_all add: window_inv_def)
  have "inner_inv D S po idx dl0 ?dl (slots a2) (- 1)"
    unfolding inner_inv_def
  proof (intro conjI)
    show "length ?dl = length dl0" by (rule i1)
    show "settled D S ?dl" by (rule i2)
    show "\<forall>i. i \<notin> insert po S \<longrightarrow> ?dl ! i = dl0 ! i" using i3 by simp
    show "\<forall>k<length (slots a2). k \<noteq> idx \<longrightarrow> slot_ok S ?dl (slots a2 ! k)"
    proof (intro allI impI)
      fix k assume k: "k < length (slots a2)" "k \<noteq> idx"
      then have kw: "k < window" using l2 by simp
      with e2 have "slots a2 ! k = slots ?a1 ! k \<or> slots a2 ! k = (None, 0)" by simp
      then show "slot_ok S ?dl (slots a2 ! k)"
      proof
        assume "slots a2 ! k = slots ?a1 ! k"
        with k(2) s1 have "slots a2 ! k = slots array ! k" by simp
        moreover have "slots array ! k \<in> set (slots array)" using kw len by simp
        ultimately show ?thesis using i4 by simp
      next
        assume "slots a2 ! k = (None, 0)"
        then show ?thesis by (simp add: slot_ok_def)
      qed
    qed
    have "slots ?a1 ! idx = (Some po, 0)" using s1 idx len by simp
    with e2 idx have x: "slots a2 ! idx = (Some po, 0) \<or> slots a2 ! idx = (None, 0)" by auto
    from x show "fst (slots a2 ! idx) = None \<or> fst (slots a2 ! idx) = Some po" by auto
    from x show "(- 1 :: int) < 0 \<longrightarrow> snd (slots a2 ! idx) = 0" by auto
    show "(0 :: int) \<le> - 1 \<longrightarrow> (\<exists>b d. ?dl ! po = Some b \<and> b \<in> S \<and> chain ?dl d b \<and> Suc d \<le> D \<and>
                            unat (snd (slots a2 ! idx)) = Suc d)" by simp
  qed
  from find_deltas_search_inv[OF s this po pol idx l2 d0 d] show ?thesis .
qed

section \<open>The delta search of a whole list\<close>

lemma same_frame_nth:
  assumes "same_frame pb pb'" and "i < nr_objects pb"
  shows "static_part (object_list pb' ! i) = static_part (object_list pb ! i)"
proof -
  from assms(1) have m: "map static_part (object_list pb') = map static_part (object_list pb)"
    by (simp add: same_frame_def)
  have l: "nr_objects pb' = nr_objects pb" using assms(1) by (rule same_frame_length)
  have "map static_part (object_list pb') ! i = map static_part (object_list pb) ! i"
    using m by simp
  with assms(2) l show ?thesis by simp
qed

lemma static_part_fields:
  "po_delta_child (static_part po) = po_delta_child po"
  "po_size (static_part po) = po_size po"
  "po_no_try_delta (static_part po) = po_no_try_delta po"
  by (simp_all add: static_part_def)

lemma same_frame_fields:
  assumes "same_frame pb pb'" and "i < nr_objects pb"
  shows "po_delta_child (object_list pb' ! i) = po_delta_child (object_list pb ! i)"
    and "po_size (object_list pb' ! i) = po_size (object_list pb ! i)"
    and "po_no_try_delta (object_list pb' ! i) = po_no_try_delta (object_list pb ! i)"
  using same_frame_nth[OF assms] static_part_fields by metis+

lemma same_frame_no_children:
  assumes "same_frame pb pb'" and "no_children pb"
  shows "no_children pb'"
  using assms same_frame_fields(1)[OF assms(1)] same_frame_length[OF assms(1)]
  by (simp add: no_children_def)

lemma find_deltas_loop_inv:
  "find_deltas_loop env window depth list (pb, array, idx, count, mem) = Inr (pb', a', i', c', m') \<Longrightarrow>
   window_inv D S dl0 (delta_links pb) (slots array) \<Longrightarrow> distinct list \<Longrightarrow> set list \<inter> S = {} \<Longrightarrow>
   idx < window \<Longrightarrow> length array = window \<Longrightarrow> 0 < depth \<Longrightarrow> unat depth \<le> D \<Longrightarrow> no_children pb \<Longrightarrow>
   window_inv D (S \<union> set list) dl0 (delta_links pb') (slots a')"
proof (induction list arbitrary: pb array idx count mem S)
  case Nil
  then show ?case by simp
next
  case (Cons po list)
  from Cons.prems(1) obtain st1 where
    s: "find_deltas_step env window depth po (pb, array, idx, count, mem) = Inr st1" and
    l: "find_deltas_loop env window depth list st1 = Inr (pb', a', i', c', m')"
    by (auto split: sum.splits)
  obtain pb1 a1 i1 c1 m1 where st1: "st1 = (pb1, a1, i1, c1, m1)" by (cases st1) auto
  have po: "po \<notin> S" using Cons.prems(4) by auto
  from find_deltas_step_inv[OF s[unfolded st1] Cons.prems(2) po Cons.prems(5) Cons.prems(6)
      Cons.prems(7) Cons.prems(8) Cons.prems(9)]
  have w1: "window_inv D (insert po S) dl0 (delta_links pb1) (slots a1)"
    and i1: "i1 < window" and l1: "length a1 = window" by simp_all
  have nc1: "no_children pb1"
    using find_deltas_step_frame[OF s[unfolded st1]] Cons.prems(9) by (rule same_frame_no_children)
  have d: "distinct list" and dis: "set list \<inter> insert po S = {}" using Cons.prems(3,4) by auto
  from Cons.IH[OF l[unfolded st1] w1 d dis i1 l1 Cons.prems(7) Cons.prems(8) nc1]
  show ?case by simp
qed

lemma find_deltas_inv:
  assumes r: "find_deltas env pb list window depth = Inr pb'" and dist: "distinct list"
    and d0: "0 < depth" and d: "unat depth \<le> D" and nc: "no_children pb"
  shows "settled D (set list) (delta_links pb') \<and>
         (\<forall>i. i \<notin> set list \<longrightarrow> delta_links pb' ! i = delta_links pb ! i)"
proof (cases "list = []")
  case True
  with r have "pb' = pb" by (auto simp: find_deltas_def split: if_splits)
  with True show ?thesis by (simp add: settled_def)
next
  case False
  let ?e = "\<lparr>u_object = None, u_data = None, u_index = None, u_depth = 0\<rparr>"
  from r False have w: "0 < window" by (auto simp: find_deltas_def split: if_splits)
  from r False obtain a' i' c' m' where
    l: "find_deltas_loop env window depth list (pb, replicate window ?e, 0, 0, 0) = Inr (pb', a', i', c', m')"
    by (auto simp: find_deltas_def split: if_splits sum.splits)
  have "window_inv D {} (delta_links pb) (delta_links pb) (slots (replicate window ?e))"
    by (auto simp: window_inv_def settled_def slots_def slot_ok_def)
  from find_deltas_loop_inv[OF l this dist _ w _ d0 d nc]
  have "window_inv D (set list) (delta_links pb) (delta_links pb') (slots a')" by simp
  then show ?thesis by (simp add: window_inv_def)
qed

section \<open>The registry between the operations\<close>

lemma get_object_details_links: "delta_links (get_object_details pb) = delta_links pb"
  by (simp add: delta_links_def get_object_details_def o_def if_distrib[of po_delta])

lemma get_object_details_nth:
  "i < nr_objects pb \<Longrightarrow>
   object_list (get_object_details pb) ! i =
     (if big_file_threshold pb < po_size (object_list pb ! i)
      then (object_list pb ! i)\<lparr>po_no_try_delta := True\<rparr> else object_list pb ! i)"
  by (simp add: get_object_details_def)

lemma candidate_get_object_details:
  "i < nr_objects pb \<Longrightarrow>
   candidate (get_object_details pb) (object_list (get_object_details pb) ! i) =
   candidate pb (object_list pb ! i)"
  by (auto simp: get_object_details_nth candidate_def) (simp_all add: get_object_details_def)

lemma candidate_listed:
  "i < nr_objects pb \<Longrightarrow>
   (i \<in> set (sorted_delta_list (get_object_details pb))) = candidate pb (object_list pb ! i)"
  by (auto simp: sorted_delta_list_def set_git__tsort delta_list_def candidate_def
      get_object_details_nth)
     (simp_all add: get_object_details_def)

lemma distinct_sorted_delta_list: "distinct (sorted_delta_list pb)"
  by (simp add: sorted_delta_list_def distinct_git__tsort delta_list_def)

lemma sorted_delta_list_bound: "i \<in> set (sorted_delta_list pb) \<Longrightarrow> i < nr_objects pb"
  by (simp add: sorted_delta_list_def set_git__tsort delta_list_def)

lemma candidate_same_frame:
  assumes "same_frame pb pb'" and "i < nr_objects pb"
  shows "candidate pb' (object_list pb' ! i) = candidate pb (object_list pb ! i)"
proof -
  from assms(1) have "big_file_threshold pb' = big_file_threshold pb" by (simp add: same_frame_def)
  with same_frame_fields(2,3)[OF assms] show ?thesis by (simp add: candidate_def)
qed

lemma registry_inv_done: "registry_inv (pb\<lparr>pb_done := x\<rparr>) = registry_inv pb"
  by (simp add: registry_inv_def no_children_def no_dangling_def candidate_def delta_links_def)

lemma delta_links_nth: "i < nr_objects pb \<Longrightarrow> delta_links pb ! i = po_delta (object_list pb ! i)"
  by (simp add: delta_links_def)

lemma length_delta_links [simp]: "length (delta_links pb) = nr_objects pb"
  by (simp add: delta_links_def)

lemma registry_inv_get_object_details:
  assumes "registry_inv pb"
  shows "registry_inv (get_object_details pb)"
proof -
  let ?pb1 = "get_object_details pb"
  have n: "nr_objects ?pb1 = nr_objects pb" by (simp add: get_object_details_def)
  have l: "delta_links ?pb1 = delta_links pb" by (rule get_object_details_links)
  have 1: "no_children ?pb1"
    using assms by (simp add: registry_inv_def no_children_def get_object_details_def)
  have 0: "no_dangling ?pb1"
    using assms by (simp add: registry_inv_def no_dangling_def get_object_details_def)
  have 2: "\<forall>i<nr_objects ?pb1. po_delta (object_list ?pb1 ! i) \<noteq> None \<longrightarrow>
             candidate ?pb1 (object_list ?pb1 ! i)"
  proof (intro allI impI)
    fix i assume i: "i < nr_objects ?pb1" and d: "po_delta (object_list ?pb1 ! i) \<noteq> None"
    from i n have i': "i < nr_objects pb" by simp
    from d have "delta_links ?pb1 ! i \<noteq> None" using i by (simp add: delta_links_nth)
    with l i' have "po_delta (object_list pb ! i) \<noteq> None" by (simp add: delta_links_nth)
    with assms i' have "candidate pb (object_list pb ! i)" by (simp add: registry_inv_def)
    with candidate_get_object_details[OF i'] show "candidate ?pb1 (object_list ?pb1 ! i)" by simp
  qed
  have 3: "\<forall>i<nr_objects ?pb1. \<exists>d\<le>unat GIT_PACK_DEPTH. chain (delta_links ?pb1) d i"
    using assms n l by (simp add: registry_inv_def)
  from 0 1 2 3 show ?thesis unfolding registry_inv_def by blast
qed

lemma registry_inv_find_deltas:
  assumes inv: "registry_inv pb" and r: "find_deltas env pb list window GIT_PACK_DEPTH = Inr pb'"
    and dist: "distinct list"
    and cand: "\<forall>i<nr_objects pb. (i \<in> set list) = candidate pb (object_list pb ! i)"
  shows "registry_inv pb'"
proof -
  let ?D = "unat GIT_PACK_DEPTH"
  have f: "same_frame pb pb'" using r by (rule find_deltas_frame)
  have n: "nr_objects pb' = nr_objects pb" using f by (rule same_frame_length)
  from inv have nc: "no_children pb" by (simp add: registry_inv_def)
  have d0: "0 < GIT_PACK_DEPTH" by (simp add: GIT_PACK_DEPTH_def)
  from find_deltas_inv[OF r dist d0 order_refl nc]
  have s: "settled ?D (set list) (delta_links pb')"
    and u: "\<forall>i. i \<notin> set list \<longrightarrow> delta_links pb' ! i = delta_links pb ! i" by simp_all
  have out: "delta_links pb' ! i = None" if "i < nr_objects pb" "i \<notin> set list" for i
  proof (rule ccontr)
    assume "delta_links pb' ! i \<noteq> None"
    with u that have "po_delta (object_list pb ! i) \<noteq> None" by (simp add: delta_links_nth)
    with inv that(1) have "candidate pb (object_list pb ! i)" by (simp add: registry_inv_def)
    with cand that show False by simp
  qed
  have 1: "no_children pb'" using f nc by (rule same_frame_no_children)
  have 0: "no_dangling pb'"
    using f inv n by (simp add: registry_inv_def no_dangling_def same_frame_def)
  have 2: "\<forall>i<nr_objects pb'. po_delta (object_list pb' ! i) \<noteq> None \<longrightarrow>
             candidate pb' (object_list pb' ! i)"
  proof (intro allI impI)
    fix i assume i: "i < nr_objects pb'" and d: "po_delta (object_list pb' ! i) \<noteq> None"
    from i n have i': "i < nr_objects pb" by simp
    from d i have "delta_links pb' ! i \<noteq> None" by (simp add: delta_links_nth)
    with out[OF i'] have "i \<in> set list" by blast
    with cand i' have "candidate pb (object_list pb ! i)" by simp
    with candidate_same_frame[OF f i'] show "candidate pb' (object_list pb' ! i)" by simp
  qed
  have 3: "\<forall>i<nr_objects pb'. \<exists>d\<le>?D. chain (delta_links pb') d i"
  proof (intro allI impI)
    fix i assume i: "i < nr_objects pb'"
    from i n have i': "i < nr_objects pb" by simp
    show "\<exists>d\<le>?D. chain (delta_links pb') d i"
    proof (cases "i \<in> set list")
      case True
      with s show ?thesis by (simp add: settled_def)
    next
      case False
      from out[OF i' False] i have "chain (delta_links pb') 0 i" by simp
      then show ?thesis by blast
    qed
  qed
  from 0 1 2 3 show ?thesis unfolding registry_inv_def by blast
qed

lemma registry_inv_prepare_pack:
  assumes inv: "registry_inv pb" and r: "prepare_pack env pb = Inr pb'"
  shows "registry_inv pb'"
proof (cases "nr_objects pb = 0 \<or> pb_done pb")
  case True
  with r have "pb' = pb" by (simp add: prepare_pack_def)
  with inv show ?thesis by simp
next
  case False
  with r have s: "prepare_pack_search env pb = Inr pb'" by (simp add: prepare_pack_def)
  let ?pb1 = "get_object_details pb"
  have i1: "registry_inv ?pb1" using inv by (rule registry_inv_get_object_details)
  have n: "nr_objects ?pb1 = nr_objects pb" by (simp add: get_object_details_def)
  from prepare_pack_search_run[OF s] show ?thesis
  proof
    assume "pb' = ?pb1\<lparr>pb_done := True\<rparr>"
    with i1 show ?thesis by (simp add: registry_inv_done)
  next
    assume "\<exists>pb2. find_deltas env ?pb1 (sorted_delta_list ?pb1)
              (unat (GIT_PACK_WINDOW + 1)) GIT_PACK_DEPTH = Inr pb2 \<and> pb' = pb2\<lparr>pb_done := True\<rparr>"
    then obtain pb2 where
      f: "find_deltas env ?pb1 (sorted_delta_list ?pb1) (unat (GIT_PACK_WINDOW + 1)) GIT_PACK_DEPTH = Inr pb2"
      and e: "pb' = pb2\<lparr>pb_done := True\<rparr>" by blast
    have c: "\<forall>i<nr_objects ?pb1. (i \<in> set (sorted_delta_list ?pb1)) =
                candidate ?pb1 (object_list ?pb1 ! i)"
      using candidate_listed[of _ pb] candidate_get_object_details[of _ pb] n by simp
    from registry_inv_find_deltas[OF i1 f distinct_sorted_delta_list c] e
    show ?thesis by (simp add: registry_inv_done)
  qed
qed

lemma git_packbuilder_insert_cases:
  assumes "git_packbuilder_insert env pb oid name = Inr pb'"
    and "\<forall>n. \<not> git__realloc_moves env n"
  shows "pb' = pb \<or>
         (\<exists>po. object_list pb' = object_list pb @ [po] \<and> po_delta po = None \<and>
               po_delta_child po = None \<and> \<not> po_delta_dangling po \<and>
               big_file_threshold pb' = big_file_threshold pb)"
  using assms
  by (auto simp: git_packbuilder_insert_def Let_def rehash_def new_pobject_def
      split: if_splits option.splits)

lemma registry_inv_insert:
  assumes inv: "registry_inv pb" and r: "git_packbuilder_insert env pb oid name = Inr pb'"
    and m: "\<forall>n. \<not> git__realloc_moves env n"
  shows "registry_inv pb'"
proof -
  from git_packbuilder_insert_cases[OF r m] show ?thesis
  proof
    assume "pb' = pb"
    with inv show ?thesis by simp
  next
    assume "\<exists>po. object_list pb' = object_list pb @ [po] \<and> po_delta po = None \<and>
               po_delta_child po = None \<and> \<not> po_delta_dangling po \<and>
               big_file_threshold pb' = big_file_threshold pb"
    then obtain po where ol: "object_list pb' = object_list pb @ [po]" and d: "po_delta po = None"
      and c: "po_delta_child po = None" and g: "\<not> po_delta_dangling po"
      and b: "big_file_threshold pb' = big_file_threshold pb"
      by blast
    have dl: "delta_links pb' = delta_links pb @ [None]" using ol d by (simp add: delta_links_def)
    from inv have i1: "no_children pb" and i0: "no_dangling pb"
      and i2: "\<forall>i<nr_objects pb. po_delta (object_list pb ! i) \<noteq> None \<longrightarrow>
                 candidate pb (object_list pb ! i)"
      and i3: "\<forall>i<nr_objects pb. \<exists>d\<le>unat GIT_PACK_DEPTH. chain (delta_links pb) d i"
      by (simp_all add: registry_inv_def)
    have 1: "no_children pb'"
      using i1 ol c by (auto simp: no_children_def nth_append)
    have 0: "no_dangling pb'"
      using i0 ol g by (auto simp: no_dangling_def nth_append)
    have 2: "\<forall>i<nr_objects pb'. po_delta (object_list pb' ! i) \<noteq> None \<longrightarrow>
               candidate pb' (object_list pb' ! i)"
      using i2 ol d b by (auto simp: nth_append candidate_def)
    have 3: "\<forall>i<nr_objects pb'. \<exists>d\<le>unat GIT_PACK_DEPTH. chain (delta_links pb') d i"
    proof (intro allI impI)
      fix i assume i: "i < nr_objects pb'"
      show "\<exists>d\<le>unat GIT_PACK_DEPTH. chain (delta_links pb') d i"
      proof (cases "i < nr_objects pb")
        case True
        with i3 obtain d where "d \<le> unat GIT_PACK_DEPTH" "chain (delta_links pb) d i" by blast
        with chain_append[of "delta_links pb" d i "[None]"] dl show ?thesis by auto
      next
        case False
        with i ol have "i = nr_objects pb" by simp
        then have "chain (delta_links pb') 0 i" using dl by (simp add: nth_append)
        then show ?thesis by blast
      qed
    qed
    from 0 1 2 3 show ?thesis unfolding registry_inv_def by blast
  qed
qed

lemma git_packbuilder_new_empty: "git_packbuilder_new env = Inr pb \<Longrightarrow> object_list pb = []"
  by (auto simp: git_packbuilder_new_def packbuilder_config_def zeroed_packbuilder_def Let_def
      split: if_splits sum.splits)

lemma reachable_registry_inv: "reachable_in_place pb \<Longrightarrow> registry_inv pb"
proof (induction rule: reachable_in_place.induct)
  case (in_place_new env pb)
  from git_packbuilder_new_empty[OF this] show ?case
    by (simp add: registry_inv_def no_children_def no_dangling_def)
next
  case (in_place_insert pb env oid name pb')
  then show ?case by (simp add: registry_inv_insert)
next
  case (in_place_prepare_pack pb env pb')
  then show ?case by (simp add: registry_inv_prepare_pack)
qed

text \<open>
  As long as \<open>object_list\<close> stays where it is and no build has written the session,
  the depth filter of \<open>try_delta\<close> keeps the chains short: from any entry the walk along
  the \<open>delta\<close> pointers ends, visits no entry twice and takes at most \<open>GIT_PACK_DEPTH\<close>
  (50) steps.
\<close>

lemma delta_chains_bounded_in_place:
  assumes "reachable_in_place pb" and "i < nr_objects pb"
  shows "\<exists>p. delta_chain 51 (object_list pb) i = Inr p \<and> distinct p \<and>
             length p \<le> 51 \<and> hd p = i \<and> last p < nr_objects pb \<and>
             po_delta (object_list pb ! last p) = None"
proof -
  have inv: "registry_inv pb" using assms(1) by (rule reachable_registry_inv)
  then have nd: "\<forall>j<nr_objects pb. \<not> po_delta_dangling (object_list pb ! j)"
    by (simp add: registry_inv_def no_dangling_def)
  from inv assms(2) obtain d where
    d: "d \<le> unat GIT_PACK_DEPTH" "chain (map po_delta (object_list pb)) d i"
    by (auto simp: registry_inv_def delta_links_def)
  have "unat GIT_PACK_DEPTH = 50" by (simp add: GIT_PACK_DEPTH_def)
  with d(1) have d51: "d < 51" by simp
  from chain_path[OF nd d(2) d51] obtain p where
    p: "delta_chain 51 (object_list pb) i = Inr p" "length p = Suc d" "hd p = i"
       "last p < nr_objects pb" "po_delta (object_list pb ! last p) = None" "distinct p"
    by blast
  from d51 p(2) have "length p \<le> 51" by simp
  with p show ?thesis by blast
qed

section \<open>An insert that moves the registry\<close>

lemma relocate_delta: "po_delta (relocate po) = po_delta po"
  by (simp add: relocate_def)

lemma relocate_dangling: "po_delta_dangling (relocate po) = (po_delta po \<noteq> None)"
  by (simp add: relocate_def)

text \<open>
  C4.  The claim is that in every registry insert and prepare-pack can reach, the walk
  along the \<open>delta\<close> pointers from any entry ends within \<open>max_depth\<close> steps and visits no
  entry twice.  When \<open>git_packbuilder_insert\<close> finds \<open>object_list\<close> full it enlarges it
  with \<open>git__realloc\<close> and calls \<open>rehash\<close>, which stores the new addresses of the
  entries in \<open>object_ix\<close>; the \<open>delta\<close> pointers of the entries are left as they were.
  So when the allocator returns the array at another address, every entry that had a
  delta base keeps a pointer into the block that was freed, and the walk from it is
  undefined at its first step.
\<close>

theorem insert_moves_registry:
  assumes "git_packbuilder_insert env pb oid name = Inr pb'"
    and "object_ix pb oid = None"
    and "unat (nr_alloc pb) \<le> nr_objects pb"
    and "git__realloc_moves env (unat ((nr_alloc pb + 1024) * 3 div 2))"
    and "i < nr_objects pb"
    and "po_delta (object_list pb ! i) \<noteq> None"
  shows "po_delta (object_list pb' ! i) = po_delta (object_list pb ! i) \<and>
         po_delta_dangling (object_list pb' ! i) \<and>
         delta_chain (Suc fuel) (object_list pb') i = Inl EUNDEFINED"
proof -
  from assms(1-4) obtain po where
    ol: "object_list pb' = map relocate (object_list pb) @ [po]"
    by (auto simp: git_packbuilder_insert_def Let_def rehash_def split: if_splits option.splits)
  from ol assms(5) have n: "object_list pb' ! i = relocate (object_list pb ! i)"
    by (simp add: nth_append)
  have l: "i < nr_objects pb'" using ol assms(5) by simp
  have d: "po_delta (object_list pb' ! i) = po_delta (object_list pb ! i)"
    using n by (simp add: relocate_delta)
  have g: "po_delta_dangling (object_list pb' ! i)"
    using n assms(6) by (simp add: relocate_dangling)
  from assms(6) obtain b where b: "po_delta (object_list pb ! i) = Some b" by auto
  have "delta_chain (Suc fuel) (object_list pb') i = Inl EUNDEFINED"
    using l d g b by simp
  with d g show ?thesis by simp
qed


theorem insert_moves_registry_witness:
  "(case full_session of
      Inr pb \<Rightarrow>
        object_ix pb 3 = None \<and> nr_objects pb = 2 \<and> nr_alloc pb = 2 \<and>
        po_delta (object_list pb ! 0) = Some 1 \<and>
        delta_chain 51 (object_list pb) 0 = Inr [0, 1] \<and>
        (case git_packbuilder_insert moving_env pb 3 None of
           Inr pb' \<Rightarrow>
             po_delta (object_list pb' ! 0) = Some 1 \<and>
             po_delta_dangling (object_list pb' ! 0) \<and>
             delta_chain 51 (object_list pb') 0 = Inl EUNDEFINED
         | Inl e \<Rightarrow> False)
    | Inl e \<Rightarrow> False)"
proof -
  have 1: "\<not> isl full_session" by code_simp
  have 2: "\<not> isl moved_session" by code_simp
  have 3: "(case full_session of
              Inr pb \<Rightarrow> object_ix pb 3 = None \<and> nr_objects pb = 2 \<and> nr_alloc pb = 2 \<and>
                        po_delta (object_list pb ! 0) = Some 1 \<and>
                        delta_chain 51 (object_list pb) 0 = Inr [0, 1]
            | Inl e \<Rightarrow> False)" by code_simp
  have 4: "git__realloc_moves moving_env n" for n by (simp add: moving_env_def)
  obtain pb where pb: "full_session = Inr pb"
  proof (cases full_session)
    case (Inl e)
    have "isl full_session" unfolding Inl by simp
    with 1 show ?thesis by contradiction
  next
    case (Inr pb)
    with that show ?thesis by blast
  qed
  have e: "moved_session = git_packbuilder_insert moving_env pb 3 None"
    unfolding moved_session_def pb by simp
  have "\<not> isl (git_packbuilder_insert moving_env pb 3 None)" using 2 unfolding e .
  then obtain pb' where pb': "git_packbuilder_insert moving_env pb 3 None = Inr pb'"
    by (cases "git_packbuilder_insert moving_env pb 3 None") auto
  from 3 have f: "object_ix pb 3 = None" "nr_objects pb = 2" "nr_alloc pb = 2"
    "po_delta (object_list pb ! 0) = Some 1" "delta_chain 51 (object_list pb) 0 = Inr [0, 1]"
    unfolding pb by simp_all
  have c: "unat (nr_alloc pb) \<le> nr_objects pb" using f(2,3) by simp
  have i: "0 < nr_objects pb" using f(2) by simp
  have d: "po_delta (object_list pb ! 0) \<noteq> None" using f(4) by simp
  from insert_moves_registry[OF pb' f(1) c 4 i d, of 50] f
  show ?thesis unfolding pb by (simp add: pb')
qed

end
